theory Spec2Isabelle
  imports Main "HOL-Library.Word"
begin

section \<open>JavaScript strings\<close>

text \<open>
  A JavaScript string is a sequence of UTF-16 code units. The regular-expression classes
  \<open>\s\<close>, \<open>\d\<close> and \<open>.\<close> (no \<open>u\<close> or \<open>s\<close> flag) and \<open>String.prototype.trim\<close> are
  defined on code units, so a line of a checklist is a list of 16-bit words.
\<close>

type_synonym cu = "16 word"
type_synonym jstring = "cu list"

definition cu_of :: "char \<Rightarrow> cu" where
  "cu_of ch = of_nat (of_char ch)"

definition str :: "string \<Rightarrow> jstring" where
  "str = map cu_of"

text \<open>\<open>LineTerminator\<close>: LF, CR, LS, PS.\<close>

definition is_line_terminator :: "cu \<Rightarrow> bool" where
  "is_line_terminator c = (c = 0x0A \<or> c = 0x0D \<or> c = 0x2028 \<or> c = 0x2029)"

text \<open>\<open>\s\<close> and the characters \<open>trim\<close> strips: \<open>WhiteSpace\<close> (TAB, VT, FF, SP, NBSP, BOM, category
  Zs) and \<open>LineTerminator\<close>.\<close>

definition is_ws :: "cu \<Rightarrow> bool" where
  "is_ws c = (c = 0x09 \<or> c = 0x0B \<or> c = 0x0C \<or> c = 0x20 \<or> c = 0xA0 \<or> c = 0x1680
     \<or> (0x2000 \<le> c \<and> c \<le> 0x200A) \<or> c = 0x202F \<or> c = 0x205F \<or> c = 0x3000 \<or> c = 0xFEFF
     \<or> is_line_terminator c)"

text \<open>\<open>\d\<close>: the ten ASCII digits.\<close>

definition is_digit :: "cu \<Rightarrow> bool" where
  "is_digit c = (0x30 \<le> c \<and> c \<le> 0x39)"

text \<open>\<open>.\<close>: any code unit but a line terminator.\<close>

definition is_dot :: "cu \<Rightarrow> bool" where
  "is_dot c = (\<not> is_line_terminator c)"

text \<open>\<open>s.trim()\<close>.\<close>

definition trim :: "jstring \<Rightarrow> jstring" where
  "trim s = rev (dropWhile is_ws (rev (dropWhile is_ws s)))"

text \<open>\<open>s.includes(pat)\<close>.\<close>

fun includes_str :: "jstring \<Rightarrow> jstring \<Rightarrow> bool" where
  "includes_str [] pat = (pat = [])"
| "includes_str (x # xs) pat = (take (length pat) (x # xs) = pat \<or> includes_str xs pat)"

text \<open>\<open>s.split('\n')\<close>: never empty, \<open>''.split('\n')\<close> is \<open>['']\<close>.\<close>

fun split_nl :: "jstring \<Rightarrow> jstring list" where
  "split_nl [] = [[]]"
| "split_nl (x # xs) =
     (if x = 0x0A then [] # split_nl xs
      else (case split_nl xs of l # ls \<Rightarrow> (x # l) # ls | [] \<Rightarrow> [[x]]))"

text \<open>\<open>lines.join('\n')\<close>.\<close>

fun join_nl :: "jstring list \<Rightarrow> jstring" where
  "join_nl [] = []"
| "join_nl [l] = l"
| "join_nl (l # ls) = l @ 0x0A # join_nl ls"


section \<open>Regular expressions with JavaScript's backtracking order\<close>

text \<open>
  The fragment of ECMAScript patterns that \<open>files.ts\<close> uses: the assertions \<open>^\<close> and \<open>$\<close>
  (no \<open>m\<close> flag), one-character atoms (a literal, a class), \<open>+\<close> on a one-character atom
  (every \<open>+\<close> of the three patterns is of this shape), concatenation, the greedy \<open>(?:...)?\<close>
  and capture groups.

  \<open>ms n r (s, c)\<close> lists, in the order the backtracking matcher tries them, every way \<open>r\<close>
  can match a prefix of the remaining input \<open>s\<close>: the input left and the captures after it.
  \<open>n\<close> is the length of the whole input, for \<open>^\<close>.
\<close>

datatype re =
    Bol
  | Eol
  | Eps
  | Cls "cu \<Rightarrow> bool"
  | Plus "cu \<Rightarrow> bool"
  | Cat re re
  | Opt re
  | Grp nat re

type_synonym caps = "nat \<Rightarrow> jstring option"
type_synonym mstate = "jstring \<times> caps"

text \<open>Greedy \<open>p+\<close>: the longest run first, then one code unit less, down to one.\<close>

fun plus_rests :: "(cu \<Rightarrow> bool) \<Rightarrow> jstring \<Rightarrow> jstring list" where
  "plus_rests p [] = []"
| "plus_rests p (x # xs) = (if p x then plus_rests p xs @ [xs] else [])"

fun ms :: "nat \<Rightarrow> re \<Rightarrow> mstate \<Rightarrow> mstate list" where
  "ms n Bol (s, c) = (if length s = n then [(s, c)] else [])"
| "ms n Eol (s, c) = (if s = [] then [(s, c)] else [])"
| "ms n Eps (s, c) = [(s, c)]"
| "ms n (Cls p) (s, c) = (case s of [] \<Rightarrow> [] | x # xs \<Rightarrow> if p x then [(xs, c)] else [])"
| "ms n (Plus p) (s, c) = map (\<lambda>r. (r, c)) (plus_rests p s)"
| "ms n (Cat a b) (s, c) = concat (map (ms n b) (ms n a (s, c)))"
| "ms n (Opt a) (s, c) = ms n a (s, c) @ [(s, c)]"
| "ms n (Grp i a) (s, c) =
     map (\<lambda>(s', c'). (s', c'(i \<mapsto> take (length s - length s') s))) (ms n a (s, c))"

text \<open>The start positions \<open>exec\<close> tries, leftmost first.\<close>

fun starts :: "jstring \<Rightarrow> jstring list" where
  "starts [] = [[]]"
| "starts (x # xs) = (x # xs) # starts xs"

text \<open>\<open>s.match(r)\<close> for a pattern without the \<open>g\<close> flag: the captures of the first match,
  \<open>None\<close> for \<open>null\<close>. A group that did not take part is \<open>undefined\<close>, here \<open>None\<close>.\<close>

definition exec :: "re \<Rightarrow> jstring \<Rightarrow> caps option" where
  "exec r s =
     (case concat (map (\<lambda>t. ms (length s) r (t, Map.empty)) (starts s)) of
        [] \<Rightarrow> None
      | (_, c) # _ \<Rightarrow> Some c)"

fun seq :: "re list \<Rightarrow> re" where
  "seq [] = Eps"
| "seq [r] = r"
| "seq (r # rs) = Cat r (seq rs)"

definition lit :: "char \<Rightarrow> re" where
  "lit ch = Cls (\<lambda>x. x = cu_of ch)"

text \<open>A letter under the \<open>i\<close> flag (without \<open>u\<close>): its two ASCII cases; no code unit above
  127 canonicalizes to an ASCII letter.\<close>

definition lit_i :: "char \<Rightarrow> char \<Rightarrow> re" where
  "lit_i lo up = Cls (\<lambda>x. x = cu_of lo \<or> x = cu_of up)"

text \<open>\<open>[\sxX]\<close>\<close>

definition is_box :: "cu \<Rightarrow> bool" where
  "is_box c = (is_ws c \<or> c = cu_of CHR ''x'' \<or> c = cu_of CHR ''X'')"

text \<open>\<open>[:\s]\<close>\<close>

definition is_colon_ws :: "cu \<Rightarrow> bool" where
  "is_colon_ws c = (c = cu_of CHR '':'' \<or> is_ws c)"

text \<open>\<^verbatim>\<open>/^##\s+Phase\s+\d+[:\s]+(.+)$/i\<close>\<close>

definition phase_re :: re where
  "phase_re = seq [Bol, lit CHR ''#'', lit CHR ''#'', Plus is_ws,
     lit_i CHR ''p'' CHR ''P'', lit_i CHR ''h'' CHR ''H'', lit_i CHR ''a'' CHR ''A'',
     lit_i CHR ''s'' CHR ''S'', lit_i CHR ''e'' CHR ''E'',
     Plus is_ws, Plus is_digit, Plus is_colon_ws, Grp 1 (Plus is_dot), Eol]"

text \<open>\<^verbatim>\<open>/^-\s+\[([\sxX])\]\s+(T\d+)(?:\s+\[P\])?(?:\s+\[(US\d+)\])?\s+(.+)$/\<close>\<close>

definition task_re :: re where
  "task_re = seq [Bol, lit CHR ''-'', Plus is_ws, lit CHR ''['', Grp 1 (Cls is_box),
     lit CHR '']'', Plus is_ws, Grp 2 (seq [lit CHR ''T'', Plus is_digit]),
     Opt (seq [Plus is_ws, lit CHR ''['', lit CHR ''P'', lit CHR '']'']),
     Opt (seq [Plus is_ws, lit CHR ''['',
       Grp 3 (seq [lit CHR ''U'', lit CHR ''S'', Plus is_digit]), lit CHR '']'']),
     Plus is_ws, Grp 4 (Plus is_dot), Eol]"

text \<open>\<^verbatim>\<open>/^(-\s+\[)([\sxX])(\]\s+)(T\d+)(.+)$/\<close>\<close>

definition mark_re :: re where
  "mark_re = seq [Bol, Grp 1 (seq [lit CHR ''-'', Plus is_ws, lit CHR ''['']),
     Grp 2 (Cls is_box), Grp 3 (seq [lit CHR '']'', Plus is_ws]),
     Grp 4 (seq [lit CHR ''T'', Plus is_digit]), Grp 5 (Plus is_dot), Eol]"


section \<open>The file primitives of \<open>files.ts\<close>\<close>

datatype error =
    Validation string
  | ReadError jstring
  | WriteError jstring
  | TypeError

datatype io_op = OpAccess jstring | OpRead jstring | OpWrite jstring

text \<open>
  The file system as the primitives see it: the content of each existing file, whether a
  read and a write of a path succeed, and the operations issued so far.
\<close>

record 'c fs =
  files :: "jstring \<Rightarrow> 'c option"
  readable :: "jstring \<Rightarrow> bool"
  writable :: "jstring \<Rightarrow> bool"
  trace :: "io_op list"

definition readFile :: "'c fs \<Rightarrow> jstring \<Rightarrow> (error + 'c) \<times> 'c fs" where
  "readFile f p =
     (let f' = f\<lparr>trace := trace f @ [OpRead p]\<rparr> in
      case files f p of
        Some t \<Rightarrow> if readable f p then (Inr t, f') else (Inl (ReadError p), f')
      | None \<Rightarrow> (Inl (ReadError p), f'))"

definition writeFile :: "'c fs \<Rightarrow> jstring \<Rightarrow> 'c \<Rightarrow> (error + unit) \<times> 'c fs" where
  "writeFile f p t =
     (let f' = f\<lparr>trace := trace f @ [OpWrite p]\<rparr> in
      if writable f p then (Inr (), f'\<lparr>files := (files f)(p \<mapsto> t)\<rparr>)
      else (Inl (WriteError p), f'))"

definition fileExists :: "'c fs \<Rightarrow> jstring \<Rightarrow> bool \<times> 'c fs" where
  "fileExists f p = (files f p \<noteq> None, f\<lparr>trace := trace f @ [OpAccess p]\<rparr>)"


section \<open>The task list: \<open>parseTasksMd\<close> and \<open>markTaskComplete\<close>\<close>

record task =
  task_id :: jstring
  completed :: bool
  description :: jstring
  phase :: jstring
  parallel :: bool
  story :: "jstring option"

text \<open>\<open>checked.toLowerCase() === 'x'\<close>; \<open>checked\<close> is one code unit of \<open>[\sxX]\<close>, and of these
  \<open>toLowerCase\<close> changes only \<open>X\<close>.\<close>

definition toLowerCase :: "jstring \<Rightarrow> jstring" where
  "toLowerCase = map (\<lambda>c. if 0x41 \<le> c \<and> c \<le> 0x5A then c + 0x20 else c)"

text \<open>The object pushed for a matching line. A method call on an \<open>undefined\<close> group would
  throw a \<open>TypeError\<close>; \<open>story?.trim()\<close> does not.\<close>

definition mk_task :: "jstring \<Rightarrow> jstring \<Rightarrow> caps \<Rightarrow> error + task" where
  "mk_task currentPhase line m =
     (case (m 1, m 2, m 4) of
        (Some checked, Some ident, Some descr) \<Rightarrow>
          Inr \<lparr>task_id = trim ident, completed = (toLowerCase checked = str ''x''),
               description = trim descr, phase = currentPhase,
               parallel = includes_str line (str ''[P]''), story = map_option trim (m 3)\<rparr>
      | _ \<Rightarrow> Inl TypeError)"

text \<open>The loop over the lines, \<open>currentPhase\<close> threaded through.\<close>

fun parse_lines :: "jstring \<Rightarrow> jstring list \<Rightarrow> error + task list" where
  "parse_lines currentPhase [] = Inr []"
| "parse_lines currentPhase (line # rest) =
     (case exec phase_re line of
        Some pm \<Rightarrow>
          (case pm 1 of
             None \<Rightarrow> Inl TypeError
           | Some title \<Rightarrow> parse_lines (trim title) rest)
      | None \<Rightarrow>
          (case exec task_re line of
             None \<Rightarrow> parse_lines currentPhase rest
           | Some m \<Rightarrow>
               (case mk_task currentPhase line m of
                  Inl e \<Rightarrow> Inl e
                | Inr t \<Rightarrow>
                    (case parse_lines currentPhase rest of
                       Inl e \<Rightarrow> Inl e
                     | Inr ts \<Rightarrow> Inr (t # ts)))))"

definition parseTasksMd :: "jstring fs \<Rightarrow> jstring \<Rightarrow> (error + task list) \<times> jstring fs" where
  "parseTasksMd f filePath =
     (if filePath = [] then (Inl (Validation ''File path is required''), f)
      else case readFile f filePath of
        (Inl e, f') \<Rightarrow> (Inl e, f')
      | (Inr content, f') \<Rightarrow> (parse_lines [] (split_nl content), f'))"

text \<open>A group in a template literal: \<open>undefined\<close> prints as the word.\<close>

definition tmpl :: "jstring option \<Rightarrow> jstring" where
  "tmpl g = (case g of Some s \<Rightarrow> s | None \<Rightarrow> str ''undefined'')"

text \<open>The callback of \<open>lines.map\<close> in \<open>markTaskComplete\<close>.\<close>

definition mark_line :: "jstring \<Rightarrow> jstring \<Rightarrow> jstring" where
  "mark_line taskId line =
     (case exec mark_re line of
        Some m \<Rightarrow>
          if m 4 = Some taskId
          then tmpl (m 1) @ str ''X'' @ tmpl (m 3) @ tmpl (m 4) @ tmpl (m 5)
          else line
      | None \<Rightarrow> line)"

definition markTaskComplete ::
  "jstring fs \<Rightarrow> jstring \<Rightarrow> jstring \<Rightarrow> (error + unit) \<times> jstring fs" where
  "markTaskComplete f filePath taskId =
     (if filePath = [] then (Inl (Validation ''File path is required''), f)
      else if taskId = [] \<or> trim taskId = [] then (Inl (Validation ''Task ID is required''), f)
      else case readFile f filePath of
        (Inl e, f') \<Rightarrow> (Inl e, f')
      | (Inr content, f') \<Rightarrow>
          writeFile f' filePath (join_nl (map (mark_line taskId) (split_nl content))))"

definition getIncompleteTasks :: "jstring fs \<Rightarrow> jstring \<Rightarrow> (error + task list) \<times> jstring fs" where
  "getIncompleteTasks f filePath =
     (if filePath = [] then (Inl (Validation ''File path is required''), f)
      else case parseTasksMd f filePath of
        (Inl e, f') \<Rightarrow> (Inl e, f')
      | (Inr tasks, f') \<Rightarrow> (Inr (filter (\<lambda>t. \<not> completed t) tasks), f'))"


section \<open>The workflow state: \<open>state.ts\<close>\<close>

text \<open>
  \<open>getWorkflowState\<close> returns \<open>JSON.parse(content) as WorkflowState\<close>. The cast is not checked
  when the program runs, so the state \<open>updateWorkflowState\<close> works on is whatever value the
  text of the file denotes, and every property access on it behaves as JavaScript defines it
  for that value. The embedding therefore keeps the state as a JavaScript value.

  A number is an IEEE 754 double, here its 64 bits; no operation of the module computes with
  one, only its truth value is asked for.
\<close>

type_synonym double = "64 word"

text \<open>\<open>+0\<close> and \<open>-0\<close>: all bits below the sign bit are 0.\<close>

definition is_zero :: "double \<Rightarrow> bool" where
  "is_zero n = (take_bit 63 n = 0)"

text \<open>\<open>NaN\<close>: the exponent bits are all 1 and the fraction is not 0.\<close>

definition is_nan :: "double \<Rightarrow> bool" where
  "is_nan n = (0x7FF0000000000000 < take_bit 63 n)"

text \<open>
  A value: \<open>undefined\<close>, \<open>null\<close>, a boolean, a number, a string, an array or an object. An
  object is the list of its properties, read from the front: a later assignment to a name
  stands before an earlier one and hides it. An array has its elements and, once code has
  assigned to a name on it, named properties besides. \<open>JSON.parse\<close> builds values without
  \<open>undefined\<close> and arrays without named properties; the object a caller passes as step data
  can hold \<open>undefined\<close>.
\<close>

datatype jsval =
    JUndefined
  | JNull
  | JBool bool
  | JNum double
  | JStr jstring
  | JArr "jsval list" "(jstring \<times> jsval) list"
  | JObj "(jstring \<times> jsval) list"

text \<open>\<open>ToBoolean\<close>, as \<open>||\<close> applies it.\<close>

fun truthy :: "jsval \<Rightarrow> bool" where
  "truthy JUndefined = False"
| "truthy JNull = False"
| "truthy (JBool b) = b"
| "truthy (JNum n) = (\<not> is_zero n \<and> \<not> is_nan n)"
| "truthy (JStr s) = (s \<noteq> [])"
| "truthy (JArr xs ps) = True"
| "truthy (JObj ps) = True"

text \<open>The value of a name in a list of properties, \<open>undefined\<close> when it is not there.\<close>

definition lookup :: "(jstring \<times> jsval) list \<Rightarrow> jstring \<Rightarrow> jsval" where
  "lookup ps k = (case map_of ps k of Some v \<Rightarrow> v | None \<Rightarrow> JUndefined)"

text \<open>
  \<open>v.k\<close> and \<open>v[k]\<close> read: a \<open>TypeError\<close> on \<open>undefined\<close> and \<open>null\<close>, the own property on
  an object or an array, and \<open>undefined\<close> on a boolean, a number or a string. This is the
  reading for a name that is not an array index, not \<open>length\<close> and not a property of a
  built-in prototype; the names the module reads (\<open>featureDir\<close>, \<open>stepStatus\<close> and the seven
  step names) are of this kind.
\<close>

fun get_prop :: "jsval \<Rightarrow> jstring \<Rightarrow> error + jsval" where
  "get_prop JUndefined k = Inl TypeError"
| "get_prop JNull k = Inl TypeError"
| "get_prop (JObj ps) k = Inr (lookup ps k)"
| "get_prop (JArr xs ps) k = Inr (lookup ps k)"
| "get_prop (JBool b) k = Inr JUndefined"
| "get_prop (JNum n) k = Inr JUndefined"
| "get_prop (JStr s) k = Inr JUndefined"

text \<open>
  \<open>v.k = x\<close> and \<open>v[k] = x\<close> for a name of that kind, in strict mode code as every module
  is: the property is set on an object or an array, and the assignment throws a \<open>TypeError\<close>
  on \<open>undefined\<close>, \<open>null\<close> and on a boolean, a number or a string.
\<close>

fun set_prop :: "jsval \<Rightarrow> jstring \<Rightarrow> jsval \<Rightarrow> error + jsval" where
  "set_prop (JObj ps) k x = Inr (JObj ((k, x) # ps))"
| "set_prop (JArr xs ps) k x = Inr (JArr xs ((k, x) # ps))"
| "set_prop JUndefined k x = Inl TypeError"
| "set_prop JNull k x = Inl TypeError"
| "set_prop (JBool b) k x = Inl TypeError"
| "set_prop (JNum n) k x = Inl TypeError"
| "set_prop (JStr s) k x = Inl TypeError"

text \<open>The name of the element at an index: the index in decimal.\<close>

fun index_key :: "nat \<Rightarrow> jstring" where
  "index_key n = (if n < 10 then [of_nat (48 + n)]
                  else index_key (n div 10) @ [of_nat (48 + n mod 10)])"

declare index_key.simps [simp del]

text \<open>
  The own enumerable properties of a value, which \<open>{...v}\<close> copies: those of an object; the
  elements of an array under their indices and its named properties; the code units of a
  string under their indices; none for \<open>undefined\<close>, \<open>null\<close>, a boolean or a number.
\<close>

fun own_props :: "jsval \<Rightarrow> (jstring \<times> jsval) list" where
  "own_props (JObj ps) = ps"
| "own_props (JArr xs ps) = zip (map index_key [0..<length xs]) xs @ ps"
| "own_props (JStr s) = zip (map index_key [0..<length s]) (map (\<lambda>c. JStr [c]) s)"
| "own_props JUndefined = []"
| "own_props JNull = []"
| "own_props (JBool b) = []"
| "own_props (JNum n) = []"

text \<open>\<open>WorkflowState['currentStep']\<close> and the string of each step. The \<open>step\<close> parameter of
  \<open>updateWorkflowState\<close> is declared \<open>Exclude<WorkflowState['currentStep'], 'complete'>\<close>; the
  declaration is checked when the program is compiled and the body has no test of \<open>step\<close>, so
  the function is embedded for all seven.\<close>

datatype step = Specify | Clarify | Plan | Tasks | Implement | Review | Complete

fun step_name :: "step \<Rightarrow> jstring" where
  "step_name Specify = str ''specify''"
| "step_name Clarify = str ''clarify''"
| "step_name Plan = str ''plan''"
| "step_name Tasks = str ''tasks''"
| "step_name Implement = str ''implement''"
| "step_name Review = str ''review''"
| "step_name Complete = str ''complete''"

text \<open>What \<open>JSON.parse(content)\<close> gives: a \<open>SyntaxError\<close>, or the value the text denotes.\<close>

datatype parsed = Throws | Value jsval

text \<open>The library functions the module calls, as parameters: \<open>path.join\<close>, \<open>JSON.parse\<close>
  and \<open>JSON.stringify\<close>. \<open>'c\<close> is the type of a file's content. The time of
  \<open>new Date().toISOString()\<close> is an argument of the functions that read the clock.\<close>

record 'c platform =
  path_join :: "jstring \<Rightarrow> jstring \<Rightarrow> jstring"
  json_parse :: "'c \<Rightarrow> parsed"
  json_stringify :: "jsval \<Rightarrow> 'c"

definition STATE_FILE :: jstring where
  "STATE_FILE = str ''.speckit-workflow-state.json''"

text \<open>\<open>getWorkflowState\<close>: \<open>null\<close> when the file is not there, \<open>null\<close> when reading or parsing
  throws, and otherwise the parsed value as it is.\<close>

definition getWorkflowState ::
  "'c platform \<Rightarrow> 'c fs \<Rightarrow> jstring \<Rightarrow> (error + jsval) \<times> 'c fs" where
  "getWorkflowState P f dir =
     (let statePath = path_join P dir STATE_FILE;
          (found, f1) = fileExists f statePath
      in if \<not> found then (Inr JNull, f1)
         else case readFile f1 statePath of
             (Inl e, f2) \<Rightarrow> (Inr JNull, f2)
           | (Inr content, f2) \<Rightarrow>
               (case json_parse P content of
                  Throws \<Rightarrow> (Inr JNull, f2)
                | Value v \<Rightarrow> (Inr v, f2)))"

text \<open>\<open>setWorkflowState\<close>: the path is \<open>path.join(state.featureDir, STATE_FILE)\<close>, and
  \<open>path.join\<close> throws a \<open>TypeError\<close> for an argument that is not a string.\<close>

definition setWorkflowState ::
  "'c platform \<Rightarrow> 'c fs \<Rightarrow> jsval \<Rightarrow> (error + unit) \<times> 'c fs" where
  "setWorkflowState P f state =
     (case get_prop state (str ''featureDir'') of
        Inl e \<Rightarrow> (Inl e, f)
      | Inr (JStr d) \<Rightarrow> writeFile f (path_join P d STATE_FILE) (json_stringify P state)
      | Inr _ \<Rightarrow> (Inl TypeError, f))"

definition initWorkflowState ::
  "'c platform \<Rightarrow> jstring \<Rightarrow> 'c fs \<Rightarrow> jstring \<Rightarrow> jstring \<Rightarrow> (error + jsval) \<times> 'c fs" where
  "initWorkflowState P now f dir descr =
     (let state = JObj [(str ''featureDir'', JStr dir),
                        (str ''currentStep'', JStr (str ''specify'')),
                        (str ''stepStatus'', JObj []),
                        (str ''metadata'', JObj [(str ''startedAt'', JStr now),
                                                 (str ''featureDescription'', JStr descr)])]
      in case setWorkflowState P f state of
        (Inl e, f') \<Rightarrow> (Inl e, f')
      | (Inr u, f') \<Rightarrow> (Inr state, f'))"

text \<open>
  The two assignments of \<open>updateWorkflowState\<close>. \<open>state.currentStep = step\<close> throws when
  \<open>state\<close> is not an object. In \<open>state.stepStatus[step] = {...}\<close> the right-hand side reads
  \<open>state.stepStatus[step]\<close>, which throws when \<open>state.stepStatus\<close> is \<open>undefined\<close> or \<open>null\<close>;
  the new object has the properties of the old payload, over them those of \<open>stepData\<close>, and
  \<open>completed: true\<close>; the assignment throws when \<open>state.stepStatus\<close> is not an object. The
  last line puts the object \<open>state.stepStatus\<close>, which JavaScript changes in place, back
  under its name.
\<close>

definition assign_step :: "jsval \<Rightarrow> step \<Rightarrow> jsval \<Rightarrow> error + jsval" where
  "assign_step state step stepData =
     (case set_prop state (str ''currentStep'') (JStr (step_name step)) of
        Inl e \<Rightarrow> Inl e
      | Inr state1 \<Rightarrow>
          (case get_prop state1 (str ''stepStatus'') of
             Inl e \<Rightarrow> Inl e
           | Inr status \<Rightarrow>
               (case get_prop status (step_name step) of
                  Inl e \<Rightarrow> Inl e
                | Inr old \<Rightarrow>
                    (case set_prop status (step_name step)
                            (JObj ((str ''completed'', JBool True) # own_props stepData @ own_props old)) of
                       Inl e \<Rightarrow> Inl e
                     | Inr status' \<Rightarrow> set_prop state1 (str ''stepStatus'') status'))))"

text \<open>\<open>updateWorkflowState\<close>: \<open>getWorkflowState(featureDir) || initWorkflowState(featureDir, '')\<close>,
  the two assignments, \<open>setWorkflowState(state)\<close>.\<close>

definition updateWorkflowState ::
  "'c platform \<Rightarrow> jstring \<Rightarrow> 'c fs \<Rightarrow> jstring \<Rightarrow> step \<Rightarrow> jsval \<Rightarrow> (error + jsval) \<times> 'c fs" where
  "updateWorkflowState P now f dir step stepData =
     (case getWorkflowState P f dir of
        (Inl e, f1) \<Rightarrow> (Inl e, f1)
      | (Inr got, f1) \<Rightarrow>
          (case (if truthy got then (Inr got, f1) else initWorkflowState P now f1 dir []) of
             (Inl e, f2) \<Rightarrow> (Inl e, f2)
           | (Inr state, f2) \<Rightarrow>
               (case assign_step state step stepData of
                  Inl e \<Rightarrow> (Inl e, f2)
                | Inr state' \<Rightarrow>
                    (case setWorkflowState P f2 state' of
                       (Inl e, f3) \<Rightarrow> (Inl e, f3)
                     | (Inr u, f3) \<Rightarrow> (Inr state', f3)))))"


section \<open>Notions the properties are stated with\<close>

text \<open>The condition of the callback, \<open>taskMatch && taskMatch[4] === taskId\<close>: the line is a
  task line for \<open>markTaskComplete\<close> and its id is the target.\<close>

definition targets :: "jstring \<Rightarrow> jstring \<Rightarrow> bool" where
  "targets taskId line = (case exec mark_re line of Some m \<Rightarrow> m 4 = Some taskId | None \<Rightarrow> False)"

text \<open>The bracket character of a task line, \<open>taskMatch[2]\<close>.\<close>

definition box_of :: "jstring \<Rightarrow> jstring option" where
  "box_of line = (case exec mark_re line of Some m \<Rightarrow> m 2 | None \<Rightarrow> None)"

text \<open>What stands before the bracket character: \<open>-\<close>, white space, \<open>[\<close>.\<close>

definition box_prefix :: "jstring \<Rightarrow> bool" where
  "box_prefix pre =
     (case pre of
        [] \<Rightarrow> False
      | d # t \<Rightarrow> d = cu_of CHR ''-'' \<and> t \<noteq> [] \<and> last t = cu_of CHR ''[''
                 \<and> butlast t \<noteq> [] \<and> list_all is_ws (butlast t))"

text \<open>A file system holding one readable and writable file.\<close>

definition fs0 :: "jstring \<Rightarrow> jstring \<Rightarrow> jstring fs" where
  "fs0 p content =
     \<lparr>files = [p \<mapsto> content], readable = (\<lambda>_. True), writable = (\<lambda>_. True), trace = []\<rparr>"

definition doc3 :: jstring where
  "doc3 = str ''## Phase 1: Setup\<newline>- [ ] T001 Initial setup\<newline>- [ ] T002 [P] [US1] Build core\<newline>- [x] T003 Done''"

text \<open>A checklist with the id \<open>T001\<close> on two lines.\<close>

definition dup_doc :: jstring where
  "dup_doc = str ''- [ ] T001 a\<newline>- [ ] T001 b''"

text \<open>The pattern of a task line in four parts: what stands before the tags, the two
  optional tags, and the description.\<close>

definition task_head :: "re list" where
  "task_head = [lit CHR ''-'', Plus is_ws, lit CHR ''['', Grp 1 (Cls is_box),
     lit CHR '']'', Plus is_ws, Grp 2 (seq [lit CHR ''T'', Plus is_digit])]"

definition ptag :: re where
  "ptag = seq [Plus is_ws, lit CHR ''['', lit CHR ''P'', lit CHR '']'']"

definition stag :: re where
  "stag = seq [Plus is_ws, lit CHR ''['',
       Grp 3 (seq [lit CHR ''U'', lit CHR ''S'', Plus is_digit]), lit CHR '']'']"

definition task_fin :: "re list" where
  "task_fin = [Plus is_ws, Grp 4 (Plus is_dot), Eol]"

text \<open>A phase heading: a line the first pattern of the loop matches; its title is group 1,
  trimmed.\<close>

definition is_heading :: "jstring \<Rightarrow> bool" where
  "is_heading line = (exec phase_re line \<noteq> None)"

definition heading_title :: "jstring \<Rightarrow> jstring" where
  "heading_title line =
     (case exec phase_re line of
        Some pm \<Rightarrow> (case pm 1 of Some t \<Rightarrow> trim t | None \<Rightarrow> [])
      | None \<Rightarrow> [])"

text \<open>A task line of the parser: the loop reaches the second pattern and it matches; its id
  is group 2, trimmed.\<close>

definition is_task_line :: "jstring \<Rightarrow> bool" where
  "is_task_line line = (exec phase_re line = None \<and> exec task_re line \<noteq> None)"

definition line_id :: "jstring \<Rightarrow> jstring" where
  "line_id line =
     (case exec task_re line of
        Some m \<Rightarrow> (case m 2 of Some i \<Rightarrow> trim i | None \<Rightarrow> [])
      | None \<Rightarrow> [])"

text \<open>\<open>currentPhase\<close> after the loop has run over some lines.\<close>

fun phase_after :: "jstring \<Rightarrow> jstring list \<Rightarrow> jstring" where
  "phase_after ph [] = ph"
| "phase_after ph (l # ls) = phase_after (if is_heading l then heading_title l else ph) ls"

text \<open>Captures made before a pattern runs are carried through it unchanged.\<close>

definition lift :: "caps \<Rightarrow> mstate list \<Rightarrow> mstate list" where
  "lift c = map (\<lambda>(s, d). (s, c ++ d))"

text \<open>The pattern of a task line after the bracket character.\<close>

definition task_tail :: "re list" where
  "task_tail = [lit CHR '']'', Plus is_ws, Grp 2 (seq [lit CHR ''T'', Plus is_digit]),
     Opt ptag, Opt stag] @ task_fin"

text \<open>The example checklist: two phases, three tasks.\<close>

definition doc5 :: jstring where
  "doc5 = str ''# Tasks\<newline>## Phase 1: Setup\<newline>- [ ] T001 Initial setup\<newline>- [X] T002 Already done\<newline>## Phase 2: Core\<newline>- [ ] T003 [P] [US1] Build core''"

text \<open>The shape of a story tag: \<open>US\<close> and at least one digit.\<close>

definition is_story_tag :: "jstring \<Rightarrow> bool" where
  "is_story_tag tag =
     (case tag of
        u # s # us \<Rightarrow> u = cu_of CHR ''U'' \<and> s = cu_of CHR ''S'' \<and> us \<noteq> [] \<and> list_all is_digit us
      | _ \<Rightarrow> False)"

text \<open>The story of a task line: group 3, trimmed, when it took part.\<close>

definition line_story :: "jstring \<Rightarrow> jstring option" where
  "line_story line = (case exec task_re line of Some m \<Rightarrow> map_option trim (m 3) | None \<Rightarrow> None)"

text \<open>
  The bracket and id prefix of a line, read from the format of the checklist (spec, sections
  3, 4.2 and 6) by a scan from the left and not through the pattern of the code: \<open>-\<close>, white
  space, \<open>[\<close>, the bracket character, \<open>]\<close>, white space, and the id, which is \<open>T\<close> with
  the whole run of digits after it. White space and the bracket character are the classes
  \<open>\s\<close> and \<open>[\sxX]\<close>. The result is the line in five pieces: what stands before the
  bracket character, that character, what stands between it and the id, the id, and the rest
  of the line.
\<close>

definition spec_prefix :: "jstring \<Rightarrow> (jstring \<times> cu \<times> jstring \<times> jstring \<times> jstring) option" where
  "spec_prefix line =
     (case line of
        [] \<Rightarrow> None
      | d # r1 \<Rightarrow>
          (case dropWhile is_ws r1 of
             ob # b # cb # r3 \<Rightarrow>
               (case dropWhile is_ws r3 of
                  [] \<Rightarrow> None
                | t # r5 \<Rightarrow>
                    if d = cu_of CHR ''-'' \<and> takeWhile is_ws r1 \<noteq> [] \<and> ob = cu_of CHR ''[''
                       \<and> is_box b \<and> cb = cu_of CHR '']'' \<and> takeWhile is_ws r3 \<noteq> []
                       \<and> t = cu_of CHR ''T'' \<and> takeWhile is_digit r5 \<noteq> []
                    then Some (d # takeWhile is_ws r1 @ [ob], b, cb # takeWhile is_ws r3,
                               t # takeWhile is_digit r5, dropWhile is_digit r5)
                    else None)
           | _ \<Rightarrow> None))"

text \<open>The id of a line in this reading: defined when the line has the prefix.\<close>

definition spec_line_id :: "jstring \<Rightarrow> jstring option" where
  "spec_line_id line =
     (case spec_prefix line of Some (pre, b, mid, tok, rest) \<Rightarrow> Some tok | None \<Rightarrow> None)"

text \<open>A line that has the prefix and ends with its id, as \<open>- [ ] T12\<close> does.\<close>

definition ends_with_id :: "jstring \<Rightarrow> bool" where
  "ends_with_id line =
     (case spec_prefix line of Some (pre, b, mid, tok, rest) \<Rightarrow> rest = [] | None \<Rightarrow> False)"

text \<open>A line that has the prefix and a line terminator somewhere after the id. In a line of a
  document this is CR, LS or PS: the document is split at the line feeds.\<close>

definition breaks_after_id :: "jstring \<Rightarrow> bool" where
  "breaks_after_id line =
     (case spec_prefix line of
        Some (pre, b, mid, tok, rest) \<Rightarrow> \<not> list_all is_dot rest
      | None \<Rightarrow> False)"

text \<open>A checklist with three tagged task lines.\<close>

definition tag_doc :: jstring where
  "tag_doc = str ''- [ ] T001 [AUTH] foo\<newline>- [ ] T002 [P] [us1] bar\<newline>- [ ] T003 [P] [US1] Build core''"

text \<open>A platform for the examples: the content of a file is the value its text denotes, or
  text that does not parse; \<open>path.join\<close> puts \<open>/\<close> between its arguments.\<close>

definition P0 :: "jsval option platform" where
  "P0 = \<lparr>path_join = (\<lambda>d n. d @ str ''/'' @ n),
         json_parse = (\<lambda>c. case c of None \<Rightarrow> Throws | Some v \<Rightarrow> Value v),
         json_stringify = Some\<rparr>"

definition fs_state :: "jstring \<Rightarrow> jsval option \<Rightarrow> jsval option fs" where
  "fs_state p c = \<lparr>files = [p \<mapsto> c], readable = (\<lambda>_. True), writable = (\<lambda>_. True), trace = []\<rparr>"

definition fs_empty :: "jsval option fs" where
  "fs_empty = \<lparr>files = (\<lambda>_. None), readable = (\<lambda>_. True), writable = (\<lambda>_. True), trace = []\<rparr>"

text \<open>The state file of a directory on the example platform, and two directories.\<close>

definition state_path :: "jstring \<Rightarrow> jstring" where
  "state_path d = path_join P0 d STATE_FILE"

definition dir_a :: jstring where "dir_a = str ''specs/a''"

definition dir_b :: jstring where "dir_b = str ''specs/b''"

text \<open>The state \<open>initWorkflowState\<close> writes for a directory:
  \<^verbatim>\<open>{"featureDir": d, "currentStep": "specify", "stepStatus": {}, "metadata": {...}}\<close>.\<close>

definition state0 :: "jstring \<Rightarrow> jsval" where
  "state0 d = JObj [(str ''featureDir'', JStr d),
                    (str ''currentStep'', JStr (str ''specify'')),
                    (str ''stepStatus'', JObj []),
                    (str ''metadata'', JObj [(str ''startedAt'', JStr (str ''2026-01-01T00:00:00.000Z'')),
                                             (str ''featureDescription'', JStr [])])]"

text \<open>The two partial payloads of the example: \<^verbatim>\<open>{planPath: "/a"}\<close> and
  \<^verbatim>\<open>{artifacts: ["/b"]}\<close>.\<close>

definition plan_path :: jsval where
  "plan_path = JObj [(str ''planPath'', JStr (str ''/a''))]"

definition artifacts :: jsval where
  "artifacts = JObj [(str ''artifacts'', JArr [JStr (str ''/b'')] [])]"


section \<open>Lines\<close>

lemma join_split: "join_nl (split_nl s) = s"
proof (induction s)
  case Nil show ?case by simp
next
  case (Cons x xs)
  then show ?case
    by (cases "split_nl xs"; cases "tl (split_nl xs)") (auto split: list.splits)
qed

lemma split_nl_nonempty: "split_nl s \<noteq> []"
  by (induction s) (auto split: list.splits)

lemma split_nl_no_nl: "l \<in> set (split_nl s) \<Longrightarrow> 0x0A \<notin> set l"
  by (induction s arbitrary: l) (auto split: list.splits if_splits)

lemma split_nl_append_plain: "0x0A \<notin> set l \<Longrightarrow> split_nl (l @ 0x0A # s) = l # split_nl s"
  by (induction l) auto

lemma split_nl_plain: "0x0A \<notin> set l \<Longrightarrow> split_nl l = [l]"
  by (induction l) auto

lemma split_join: "ls \<noteq> [] \<Longrightarrow> \<forall>l\<in>set ls. 0x0A \<notin> set l \<Longrightarrow> split_nl (join_nl ls) = ls"
proof (induction ls rule: join_nl.induct)
  case 1 then show ?case by simp
next
  case (2 l) then show ?case by (simp add: split_nl_plain)
next
  case (3 l v va) then show ?case by (simp add: split_nl_append_plain)
qed


section \<open>What a pattern matches\<close>

text \<open>Membership in \<open>ms\<close> is the declarative reading of a pattern: the ways to split the
  input that the pattern allows.\<close>

lemma in_plus_rests: "t \<in> set (plus_rests p s) \<longleftrightarrow> (\<exists>w. s = w @ t \<and> w \<noteq> [] \<and> list_all p w)"
proof (induction s)
  case Nil show ?case by simp
next
  case (Cons x xs)
  show ?case
  proof
    assume "t \<in> set (plus_rests p (x # xs))"
    then have px: "p x" and d: "t \<in> set (plus_rests p xs) \<or> t = xs" by (auto split: if_splits)
    from d show "\<exists>w. x # xs = w @ t \<and> w \<noteq> [] \<and> list_all p w"
    proof
      assume "t \<in> set (plus_rests p xs)"
      with Cons obtain w where "xs = w @ t" "w \<noteq> []" "list_all p w" by auto
      with px show ?thesis by (intro exI[of _ "x # w"]) simp
    next
      assume "t = xs" with px show ?thesis by (intro exI[of _ "[x]"]) simp
    qed
  next
    assume "\<exists>w. x # xs = w @ t \<and> w \<noteq> [] \<and> list_all p w"
    then obtain w where w: "x # xs = w @ t" "w \<noteq> []" "list_all p w" by auto
    then obtain w' where w': "w = x # w'" by (cases w) auto
    with w have px: "p x" and xs: "xs = w' @ t" and a: "list_all p w'" by auto
    show "t \<in> set (plus_rests p (x # xs))"
    proof (cases "w' = []")
      case True with px xs show ?thesis by simp
    next
      case False with Cons xs a px show ?thesis by auto
    qed
  qed
qed

lemma ms_suffix: "(s', c') \<in> set (ms n r (s, c)) \<Longrightarrow> \<exists>u. s = u @ s'"
proof (induction r arbitrary: s c s' c')
  case (Cat a b)
  then obtain m d where 1: "(m, d) \<in> set (ms n a (s, c))" and 2: "(s', c') \<in> set (ms n b (m, d))" by auto
  from Cat.IH(1)[OF 1] Cat.IH(2)[OF 2] show ?case by auto
next
  case (Plus p) then show ?case by (auto simp: in_plus_rests)
qed (auto split: list.splits if_splits)

lemma in_ms_Bol: "(s', c') \<in> set (ms n Bol (s, c)) \<longleftrightarrow> length s = n \<and> s' = s \<and> c' = c" by auto
lemma in_ms_Eol: "(s', c') \<in> set (ms n Eol (s, c)) \<longleftrightarrow> s = [] \<and> s' = [] \<and> c' = c" by auto
lemma in_ms_Eps: "(s', c') \<in> set (ms n Eps (s, c)) \<longleftrightarrow> s' = s \<and> c' = c" by auto
lemma in_ms_Cls: "(s', c') \<in> set (ms n (Cls p) (s, c)) \<longleftrightarrow> (\<exists>x. s = x # s' \<and> p x) \<and> c' = c"
  by (auto split: list.splits)
lemma in_ms_Plus: "(s', c') \<in> set (ms n (Plus p) (s, c)) \<longleftrightarrow> (\<exists>w. s = w @ s' \<and> w \<noteq> [] \<and> list_all p w) \<and> c' = c"
  by (auto simp: in_plus_rests)
lemma in_ms_Cat: "(s', c') \<in> set (ms n (Cat a b) (s, c)) \<longleftrightarrow>
   (\<exists>m d. (m, d) \<in> set (ms n a (s, c)) \<and> (s', c') \<in> set (ms n b (m, d)))" by auto
lemma in_ms_Opt: "(s', c') \<in> set (ms n (Opt a) (s, c)) \<longleftrightarrow>
   (s', c') \<in> set (ms n a (s, c)) \<or> (s' = s \<and> c' = c)" by auto
lemma in_ms_Grp: "(s', c') \<in> set (ms n (Grp i a) (s, c)) \<longleftrightarrow>
   (\<exists>d u. (s', d) \<in> set (ms n a (s, c)) \<and> s = u @ s' \<and> c' = d(i \<mapsto> u))"
proof
  assume "(s', c') \<in> set (ms n (Grp i a) (s, c))"
  then obtain d where d: "(s', d) \<in> set (ms n a (s, c))" and c': "c' = d(i \<mapsto> take (length s - length s') s)" by auto
  from ms_suffix[OF d] obtain u where "s = u @ s'" by auto
  with d c' show "\<exists>d u. (s', d) \<in> set (ms n a (s, c)) \<and> s = u @ s' \<and> c' = d(i \<mapsto> u)" by auto
next
  assume "\<exists>d u. (s', d) \<in> set (ms n a (s, c)) \<and> s = u @ s' \<and> c' = d(i \<mapsto> u)"
  then obtain d u where d: "(s', d) \<in> set (ms n a (s, c))" and u: "s = u @ s'" and c': "c' = d(i \<mapsto> u)" by auto
  from u have "take (length s - length s') s = u" by simp
  with d c' show "(s', c') \<in> set (ms n (Grp i a) (s, c))" by force
qed

lemmas in_ms = in_ms_Bol in_ms_Eol in_ms_Eps in_ms_Cls in_ms_Plus in_ms_Cat in_ms_Opt in_ms_Grp

lemma starts_length: "t \<in> set (starts s) \<Longrightarrow> length t \<le> length s"
  by (induction s) auto

lemma exec_anchored:
  "exec (Cat Bol r) s = (case ms (length s) r (s, Map.empty) of [] \<Rightarrow> None | (_, c) # _ \<Rightarrow> Some c)"
proof -
  have tl: "concat (map (\<lambda>t. ms (length s) (Cat Bol r) (t, Map.empty)) (tl (starts s))) = []"
  proof (cases s)
    case Nil then show ?thesis by simp
  next
    case (Cons x xs)
    have "\<forall>t\<in>set (starts xs). ms (Suc (length xs)) (Cat Bol r) (t, Map.empty) = []"
      using starts_length[of _ xs] by fastforce
    with Cons show ?thesis by simp
  qed
  have hd: "starts s = s # tl (starts s)" by (cases s) auto
  have "concat (map (\<lambda>t. ms (length s) (Cat Bol r) (t, Map.empty)) (starts s))
      = ms (length s) r (s, Map.empty)"
    by (subst hd) (simp add: tl del: ms.simps(6), simp)
  then show ?thesis by (simp add: exec_def)
qed

lemma exec_anchored_Some:
  "exec (Cat Bol r) s = Some c \<Longrightarrow> \<exists>s'. (s', c) \<in> set (ms (length s) r (s, Map.empty))"
  by (auto simp: exec_anchored split: list.splits)

lemma exec_anchored_None:
  "exec (Cat Bol r) s = None \<longleftrightarrow> ms (length s) r (s, Map.empty) = []"
  by (auto simp: exec_anchored split: list.splits)

text \<open>A match of the pattern of \<open>markTaskComplete\<close> splits the whole line into its five groups.\<close>

lemma mark_shape:
  assumes "exec mark_re line = Some m"
  shows "\<exists>w1 b w2 ds rest.
    line = cu_of CHR ''-'' # w1 @ cu_of CHR ''['' # b # cu_of CHR '']'' # w2 @ cu_of CHR ''T'' # ds @ rest
    \<and> w1 \<noteq> [] \<and> list_all is_ws w1 \<and> is_box b \<and> w2 \<noteq> [] \<and> list_all is_ws w2
    \<and> ds \<noteq> [] \<and> list_all is_digit ds \<and> rest \<noteq> [] \<and> list_all is_dot rest
    \<and> m 1 = Some (cu_of CHR ''-'' # w1 @ [cu_of CHR ''[''])
    \<and> m 2 = Some [b] \<and> m 3 = Some (cu_of CHR '']'' # w2)
    \<and> m 4 = Some (cu_of CHR ''T'' # ds) \<and> m 5 = Some rest"
proof -
  from assms obtain s' where "(s', m) \<in> set (ms (length line)
     (seq [Grp 1 (seq [lit CHR ''-'', Plus is_ws, lit CHR ''['']),
     Grp 2 (Cls is_box), Grp 3 (seq [lit CHR '']'', Plus is_ws]),
     Grp 4 (seq [lit CHR ''T'', Plus is_digit]), Grp 5 (Plus is_dot), Eol]) (line, Map.empty))"
    unfolding mark_re_def seq.simps by (auto dest: exec_anchored_Some)
  then show ?thesis
    unfolding seq.simps lit_def in_ms
    by clarsimp
qed


section \<open>\<open>markTaskComplete\<close>\<close>

lemma mark_line_untargeted: "\<not> targets taskId line \<Longrightarrow> mark_line taskId line = line"
  by (auto simp: targets_def mark_line_def split: option.splits)

lemma mark_line_targeted:
  assumes "targets taskId line"
  shows "\<exists>pre b post. line = pre @ b # post \<and> box_prefix pre \<and> is_box b \<and> box_of line = Some [b]
     \<and> mark_line taskId line = pre @ cu_of CHR ''X'' # post"
proof -
  from assms obtain m where m: "exec mark_re line = Some m" and m4: "m 4 = Some taskId"
    by (auto simp: targets_def split: option.splits)
  from mark_shape[OF m] obtain w1 b w2 ds rest where
    l: "line = cu_of CHR ''-'' # w1 @ cu_of CHR ''['' # b # cu_of CHR '']'' # w2 @ cu_of CHR ''T'' # ds @ rest"
    and w1: "w1 \<noteq> []" "list_all is_ws w1" and b: "is_box b"
    and g: "m 1 = Some (cu_of CHR ''-'' # w1 @ [cu_of CHR ''[''])" "m 2 = Some [b]"
       "m 3 = Some (cu_of CHR '']'' # w2)" "m 4 = Some (cu_of CHR ''T'' # ds)" "m 5 = Some rest"
    by blast
  let ?pre = "cu_of CHR ''-'' # w1 @ [cu_of CHR ''['']"
  let ?post = "cu_of CHR '']'' # w2 @ cu_of CHR ''T'' # ds @ rest"
  have 1: "line = ?pre @ b # ?post" using l by simp
  have 2: "box_prefix ?pre" using w1 by (simp add: box_prefix_def)
  have 3: "mark_line taskId line = ?pre @ cu_of CHR ''X'' # ?post"
    using m m4 g by (simp add: mark_line_def tmpl_def str_def)
  have 4: "box_of line = Some [b]" using m g by (simp add: box_of_def)
  from 1 2 3 4 b show ?thesis by blast
qed

lemma mark_line_no_nl: "0x0A \<notin> set line \<Longrightarrow> 0x0A \<notin> set (mark_line taskId line)"
proof (cases "targets taskId line")
  case True
  assume a: "0x0A \<notin> set line"
  from mark_line_targeted[OF True] obtain pre b post where
    "line = pre @ b # post" "mark_line taskId line = pre @ cu_of CHR ''X'' # post" by blast
  with a show ?thesis by (auto simp: cu_of_def)
next
  case False
  assume "0x0A \<notin> set line"
  with False show ?thesis by (simp add: mark_line_untargeted)
qed

lemma trim_Nil: "trim [] = []" by (simp add: trim_def)

lemma split_marked:
  "split_nl (join_nl (map (mark_line taskId) (split_nl content))) = map (mark_line taskId) (split_nl content)"
proof (rule split_join)
  show "map (mark_line taskId) (split_nl content) \<noteq> []" by (simp add: split_nl_nonempty)
  show "\<forall>l\<in>set (map (mark_line taskId) (split_nl content)). 0x0A \<notin> set l"
    using mark_line_no_nl[OF split_nl_no_nl] by auto
qed

lemma markTaskComplete_ok:
  assumes "filePath \<noteq> []" "trim taskId \<noteq> []" "files f filePath = Some content"
    "readable f filePath" "writable f filePath"
  shows "markTaskComplete f filePath taskId =
    (Inr (), f\<lparr>trace := trace f @ [OpRead filePath, OpWrite filePath],
               files := (files f)(filePath \<mapsto> join_nl (map (mark_line taskId) (split_nl content)))\<rparr>)"
proof -
  from assms(2) have "taskId \<noteq> []" using trim_Nil by auto
  with assms show ?thesis
    by (simp add: markTaskComplete_def readFile_def writeFile_def Let_def)
qed


lemma dup_doc_lines: "split_nl dup_doc = [str ''- [ ] T001 a'', str ''- [ ] T001 b'']"
  by code_simp



lemma trim_blank:
  assumes "list_all is_ws s"
  shows "trim s = []"
proof -
  have d: "dropWhile is_ws s = []" using assms by (induction s) auto
  show ?thesis unfolding trim_def d by simp
qed

text \<open>
  C8. For every path and every target id that is empty or white space only,
  \<open>markTaskComplete\<close> returns a validation error whose message names the field it rejects
  (the path when that is empty too, since it is checked first, and the task id otherwise),
  and the file system it returns is the one it was given: nothing was read or written, the
  trace of operations included.
\<close>

theorem markTaskComplete_blank_id:
  assumes "list_all is_ws taskId"
  shows "markTaskComplete f filePath taskId =
    (Inl (Validation (if filePath = [] then ''File path is required'' else ''Task ID is required'')), f)"
  using trim_blank[OF assms] by (simp add: markTaskComplete_def)

theorem markTaskComplete_blank_id_witness:
  "markTaskComplete (fs0 (str ''tasks.md'') doc3) (str ''tasks.md'') (str ''  '') =
    (Inl (Validation ''Task ID is required''), fs0 (str ''tasks.md'') doc3)
   \<and> markTaskComplete (fs0 (str ''tasks.md'') doc3) (str ''tasks.md'') [] =
    (Inl (Validation ''Task ID is required''), fs0 (str ''tasks.md'') doc3)"
proof -
  have 1: "list_all is_ws (str ''  '')" by code_simp
  have 2: "list_all is_ws []" by simp
  have 3: "str ''tasks.md'' \<noteq> []" by (simp add: str_def)
  from markTaskComplete_blank_id[OF 1, of "fs0 (str ''tasks.md'') doc3" "str ''tasks.md''"]
       markTaskComplete_blank_id[OF 2, of "fs0 (str ''tasks.md'') doc3" "str ''tasks.md''"] 3
  show ?thesis by simp
qed


section \<open>The pattern of a task line, part by part\<close>

lemma task_re_parts: "task_re = seq (Bol # task_head @ [Opt ptag, Opt stag] @ task_fin)"
  by (simp add: task_re_def task_head_def ptag_def stag_def task_fin_def)

lemma ms_seq_Cons: "ms n (seq (r # rs)) st = concat (map (ms n (seq rs)) (ms n r st))"
proof (cases st)
  case (Pair s c)
  show ?thesis
  proof (cases rs)
    case Nil
    have "concat (map (ms n Eps) xs) = xs" for xs by (induction xs) auto
    with Nil show ?thesis by simp
  next
    case (Cons a list)
    with Pair show ?thesis by simp
  qed
qed

lemma ms_seq_Nil: "ms n (seq []) st = [st]"
  by (cases st) simp

lemma concat_map_concat_map:
  "concat (map f (concat (map g xs))) = concat (map (\<lambda>x. concat (map f (g x))) xs)"
  by (induction xs) auto

lemma ms_seq_append: "ms n (seq (xs @ ys)) st = concat (map (ms n (seq ys)) (ms n (seq xs) st))"
proof (induction xs arbitrary: st)
  case Nil
  show ?case by (cases st) simp
next
  case (Cons r xs)
  have "ms n (seq ((r # xs) @ ys)) st = concat (map (ms n (seq (xs @ ys))) (ms n r st))"
    by (simp add: ms_seq_Cons)
  also have "\<dots> = concat (map (\<lambda>m. concat (map (ms n (seq ys)) (ms n (seq xs) m))) (ms n r st))"
  proof -
    have "ms n (seq (xs @ ys)) = (\<lambda>m. concat (map (ms n (seq ys)) (ms n (seq xs) m)))"
      by (rule ext) (rule Cons.IH)
    then show ?thesis by simp
  qed
  also have "\<dots> = concat (map (ms n (seq ys)) (concat (map (ms n (seq xs)) (ms n r st))))"
    by (simp add: concat_map_concat_map)
  also have "\<dots> = concat (map (ms n (seq ys)) (ms n (seq (r # xs)) st))"
    by (simp add: ms_seq_Cons)
  finally show ?case .
qed

lemma in_ms_seq_append:
  "(s', c') \<in> set (ms n (seq (xs @ ys)) st) \<longleftrightarrow>
     (\<exists>m d. (m, d) \<in> set (ms n (seq xs) st) \<and> (s', c') \<in> set (ms n (seq ys) (m, d)))"
  by (auto simp: ms_seq_append)

lemma in_ms_seq_Cons:
  "(s', c') \<in> set (ms n (seq (r # rs)) st) \<longleftrightarrow>
     (\<exists>m d. (m, d) \<in> set (ms n r st) \<and> (s', c') \<in> set (ms n (seq rs) (m, d)))"
  by (auto simp: ms_seq_Cons)

lemma head_mem:
  assumes "(s', c') \<in> set (ms n (seq task_head) (s, c))"
  shows "\<exists>w1 b w2 ds.
    s = cu_of CHR ''-'' # w1 @ cu_of CHR ''['' # b # cu_of CHR '']'' # w2 @ cu_of CHR ''T'' # ds @ s'
    \<and> w1 \<noteq> [] \<and> list_all is_ws w1 \<and> is_box b \<and> w2 \<noteq> [] \<and> list_all is_ws w2
    \<and> ds \<noteq> [] \<and> list_all is_digit ds
    \<and> c' = c(1 \<mapsto> [b], 2 \<mapsto> cu_of CHR ''T'' # ds)"
  using assms unfolding task_head_def seq.simps lit_def in_ms
  by clarsimp blast

lemma opt_ptag_mem:
  assumes "(s', c') \<in> set (ms n (Opt ptag) (s, c))"
  shows "c' = c \<and> (s' = s \<or> (\<exists>w3. w3 \<noteq> [] \<and> list_all is_ws w3 \<and> s = w3 @ str ''[P]'' @ s'))"
  using assms unfolding ptag_def seq.simps lit_def in_ms str_def
  by auto

lemma opt_stag_mem:
  assumes "(s', c') \<in> set (ms n (Opt stag) (s, c))"
  shows "(s' = s \<and> c' = c) \<or>
     (\<exists>w4 us. w4 \<noteq> [] \<and> list_all is_ws w4 \<and> us \<noteq> [] \<and> list_all is_digit us
          \<and> s = w4 @ str ''[US'' @ us @ str '']'' @ s' \<and> c' = c(3 \<mapsto> str ''US'' @ us))"
  using assms unfolding stag_def seq.simps lit_def in_ms str_def
  by auto

lemma fin_mem:
  "(s', c') \<in> set (ms n (seq task_fin) (s, c)) \<longleftrightarrow>
     s' = [] \<and> (\<exists>w5 d. s = w5 @ d \<and> w5 \<noteq> [] \<and> list_all is_ws w5 \<and> d \<noteq> [] \<and> list_all is_dot d
          \<and> c' = c(4 \<mapsto> d))"
  unfolding task_fin_def seq.simps lit_def in_ms
  by auto

section \<open>\<open>parseTasksMd\<close>\<close>

lemma phase_shape:
  assumes "exec phase_re line = Some pm"
  shows "\<exists>t. pm 1 = Some t \<and> t \<noteq> [] \<and> list_all is_dot t \<and> (\<exists>u. line = cu_of CHR ''#'' # u @ t)"
proof -
  from assms obtain s' where "(s', pm) \<in> set (ms (length line)
     (seq [lit CHR ''#'', lit CHR ''#'', Plus is_ws,
     lit_i CHR ''p'' CHR ''P'', lit_i CHR ''h'' CHR ''H'', lit_i CHR ''a'' CHR ''A'',
     lit_i CHR ''s'' CHR ''S'', lit_i CHR ''e'' CHR ''E'',
     Plus is_ws, Plus is_digit, Plus is_colon_ws, Grp 1 (Plus is_dot), Eol]) (line, Map.empty))"
    unfolding phase_re_def seq.simps by (auto dest: exec_anchored_Some)
  then show ?thesis
    unfolding seq.simps lit_def lit_i_def in_ms
    by clarsimp
qed

lemma task_shape:
  assumes "exec task_re line = Some m"
  shows "\<exists>w1 b w2 ds popt sopt w5 d.
    line = cu_of CHR ''-'' # w1 @ cu_of CHR ''['' # b # cu_of CHR '']'' # w2 @ cu_of CHR ''T'' # ds
             @ popt @ sopt @ w5 @ d
    \<and> w1 \<noteq> [] \<and> list_all is_ws w1 \<and> is_box b \<and> w2 \<noteq> [] \<and> list_all is_ws w2
    \<and> ds \<noteq> [] \<and> list_all is_digit ds
    \<and> (popt = [] \<or> (\<exists>w3. w3 \<noteq> [] \<and> list_all is_ws w3 \<and> popt = w3 @ str ''[P]''))
    \<and> (sopt = [] \<and> m 3 = None
        \<or> (\<exists>w4 us. w4 \<noteq> [] \<and> list_all is_ws w4 \<and> us \<noteq> [] \<and> list_all is_digit us
              \<and> sopt = w4 @ str ''[US'' @ us @ str '']'' \<and> m 3 = Some (str ''US'' @ us)))
    \<and> w5 \<noteq> [] \<and> list_all is_ws w5 \<and> d \<noteq> [] \<and> list_all is_dot d
    \<and> m 1 = Some [b] \<and> m 2 = Some (cu_of CHR ''T'' # ds) \<and> m 4 = Some d"
proof -
  let ?n = "length line"
  have e: "task_re = Cat Bol (seq (task_head @ [Opt ptag, Opt stag] @ task_fin))"
    by (simp add: task_re_parts task_head_def)
  from exec_anchored_Some[OF assms[unfolded e]] obtain s' where
    "(s', m) \<in> set (ms ?n (seq (task_head @ [Opt ptag, Opt stag] @ task_fin)) (line, Map.empty))"
    by blast
  then obtain s1 c1 where h: "(s1, c1) \<in> set (ms ?n (seq task_head) (line, Map.empty))"
    and r1: "(s', m) \<in> set (ms ?n (seq ([Opt ptag, Opt stag] @ task_fin)) (s1, c1))"
    unfolding in_ms_seq_append by blast
  from r1 obtain s2 c2 where p: "(s2, c2) \<in> set (ms ?n (Opt ptag) (s1, c1))"
    and r2: "(s', m) \<in> set (ms ?n (seq (Opt stag # task_fin)) (s2, c2))"
    unfolding append.simps in_ms_seq_Cons by blast
  from r2 obtain s3 c3 where s: "(s3, c3) \<in> set (ms ?n (Opt stag) (s2, c2))"
    and r3: "(s', m) \<in> set (ms ?n (seq task_fin) (s3, c3))"
    unfolding in_ms_seq_Cons by blast
  from head_mem[OF h] obtain w1 b w2 ds where
    l1: "line = cu_of CHR ''-'' # w1 @ cu_of CHR ''['' # b # cu_of CHR '']'' # w2 @ cu_of CHR ''T'' # ds @ s1"
    and hw: "w1 \<noteq> []" "list_all is_ws w1" "is_box b" "w2 \<noteq> []" "list_all is_ws w2"
      "ds \<noteq> []" "list_all is_digit ds"
    and c1: "c1 = [1 \<mapsto> [b], 2 \<mapsto> cu_of CHR ''T'' # ds]" by blast
  have "\<exists>popt. s1 = popt @ s2
      \<and> (popt = [] \<or> (\<exists>w3. w3 \<noteq> [] \<and> list_all is_ws w3 \<and> popt = w3 @ str ''[P]''))"
  proof -
    from opt_ptag_mem[OF p] consider "s2 = s1"
      | w3 where "w3 \<noteq> []" "list_all is_ws w3" "s1 = w3 @ str ''[P]'' @ s2" by blast
    then show ?thesis
    proof cases
      case 1 then show ?thesis by simp
    next
      case 2
      then have "s1 = (w3 @ str ''[P]'') @ s2" by simp
      with 2 show ?thesis by blast
    qed
  qed
  then obtain popt where l2: "s1 = popt @ s2"
    and pp: "popt = [] \<or> (\<exists>w3. w3 \<noteq> [] \<and> list_all is_ws w3 \<and> popt = w3 @ str ''[P]'')"
    by blast
  from opt_ptag_mem[OF p] have c2: "c2 = c1" by simp
  have "\<exists>sopt. s2 = sopt @ s3
      \<and> (sopt = [] \<and> c3 = c2
        \<or> (\<exists>w4 us. w4 \<noteq> [] \<and> list_all is_ws w4 \<and> us \<noteq> [] \<and> list_all is_digit us
              \<and> sopt = w4 @ str ''[US'' @ us @ str '']'' \<and> c3 = c2(3 \<mapsto> str ''US'' @ us)))"
  proof -
    from opt_stag_mem[OF s] consider "s3 = s2" "c3 = c2"
      | w4 us where "w4 \<noteq> []" "list_all is_ws w4" "us \<noteq> []" "list_all is_digit us"
          "s2 = w4 @ str ''[US'' @ us @ str '']'' @ s3" "c3 = c2(3 \<mapsto> str ''US'' @ us)" by blast
    then show ?thesis
    proof cases
      case 1 then show ?thesis by simp
    next
      case 2
      then have "s2 = (w4 @ str ''[US'' @ us @ str '']'') @ s3" by simp
      with 2 show ?thesis by blast
    qed
  qed
  then obtain sopt where l3: "s2 = sopt @ s3"
    and ss: "sopt = [] \<and> c3 = c2
        \<or> (\<exists>w4 us. w4 \<noteq> [] \<and> list_all is_ws w4 \<and> us \<noteq> [] \<and> list_all is_digit us
              \<and> sopt = w4 @ str ''[US'' @ us @ str '']'' \<and> c3 = c2(3 \<mapsto> str ''US'' @ us))"
    by blast
  from r3 obtain w5 d where
    l4: "s3 = w5 @ d" and fw: "w5 \<noteq> []" "list_all is_ws w5" "d \<noteq> []" "list_all is_dot d"
    and m: "m = c3(4 \<mapsto> d)"
    unfolding fin_mem by blast
  have line: "line = cu_of CHR ''-'' # w1 @ cu_of CHR ''['' # b # cu_of CHR '']'' # w2 @ cu_of CHR ''T'' # ds
             @ popt @ sopt @ w5 @ d"
    using l1 l2 l3 l4 by simp
  have m1: "m 1 = Some [b]" and m2: "m 2 = Some (cu_of CHR ''T'' # ds)" and m4: "m 4 = Some d"
    using m ss c2 c1 by auto
  have m3: "sopt = [] \<and> m 3 = None
        \<or> (\<exists>w4 us. w4 \<noteq> [] \<and> list_all is_ws w4 \<and> us \<noteq> [] \<and> list_all is_digit us
              \<and> sopt = w4 @ str ''[US'' @ us @ str '']'' \<and> m 3 = Some (str ''US'' @ us))"
    using m ss c2 c1 by auto
  from line hw pp m3 fw m1 m2 m4 show ?thesis by blast
qed

lemma mk_task_ok:
  assumes "exec task_re line = Some m"
  shows "\<exists>t. mk_task ph line m = Inr t \<and> phase t = ph \<and> task_id t = line_id line"
proof -
  from task_shape[OF assms] obtain b i d where "m 1 = Some b" "m 2 = Some i" "m 4 = Some d"
    by blast
  with assms show ?thesis by (simp add: mk_task_def line_id_def)
qed

lemma parse_lines_Cons:
  "parse_lines ph (l # ls) =
     (if is_heading l then parse_lines (heading_title l) ls
      else if is_task_line l then
        (case exec task_re l of
           Some m \<Rightarrow> (case mk_task ph l m of
                        Inr t \<Rightarrow> (case parse_lines ph ls of Inl e \<Rightarrow> Inl e | Inr ts \<Rightarrow> Inr (t # ts))
                      | Inl e \<Rightarrow> Inl e)
         | None \<Rightarrow> parse_lines ph ls)
      else parse_lines ph ls)"
proof (cases "exec phase_re l")
  case None
  then show ?thesis by (auto simp: is_heading_def is_task_line_def split: option.splits)
next
  case (Some pm)
  from phase_shape[OF Some] obtain t where "pm 1 = Some t" by blast
  with Some show ?thesis by (simp add: is_heading_def heading_title_def)
qed

declare parse_lines.simps(2) [simp del]

lemma parse_lines_total: "\<exists>ts. parse_lines ph ls = Inr ts"
proof (induction ls arbitrary: ph)
  case Nil show ?case by simp
next
  case (Cons l ls)
  show ?case
  proof (cases "is_heading l")
    case True with Cons show ?thesis by (simp add: parse_lines_Cons)
  next
    case False
    show ?thesis
    proof (cases "is_task_line l")
      case True
      then obtain m where m: "exec task_re l = Some m" by (auto simp: is_task_line_def)
      from mk_task_ok[OF m, of ph] obtain t where "mk_task ph l m = Inr t" by blast
      moreover from Cons obtain ts where "parse_lines ph ls = Inr ts" by blast
      ultimately show ?thesis using False True m by (simp add: parse_lines_Cons)
    next
      case F: False
      with False Cons show ?thesis by (simp add: parse_lines_Cons)
    qed
  qed
qed

lemma parse_lines_append:
  assumes "parse_lines ph a = Inr ta" "parse_lines (phase_after ph a) b = Inr tb"
  shows "parse_lines ph (a @ b) = Inr (ta @ tb)"
  using assms
proof (induction a arbitrary: ph ta)
  case Nil then show ?case by simp
next
  case (Cons l a)
  show ?case
  proof (cases "is_heading l")
    case True
    with Cons.prems have "parse_lines (heading_title l) a = Inr ta"
      "parse_lines (phase_after (heading_title l) a) b = Inr tb" by (simp_all add: parse_lines_Cons)
    from Cons.IH[OF this] True show ?thesis by (simp add: parse_lines_Cons)
  next
    case False
    show ?thesis
    proof (cases "is_task_line l")
      case True
      then obtain m where m: "exec task_re l = Some m" by (auto simp: is_task_line_def)
      from mk_task_ok[OF m, of ph] obtain t where t: "mk_task ph l m = Inr t" by blast
      from parse_lines_total obtain ts where ts: "parse_lines ph a = Inr ts" by blast
      with Cons.prems(1) False True m t have ta: "ta = t # ts" by (simp add: parse_lines_Cons)
      from Cons.prems(2) False have "parse_lines (phase_after ph a) b = Inr tb" by simp
      from Cons.IH[OF ts this] False True m t ta show ?thesis by (simp add: parse_lines_Cons)
    next
      case F: False
      with Cons.prems False have "parse_lines ph a = Inr ta"
        "parse_lines (phase_after ph a) b = Inr tb" by (simp_all add: parse_lines_Cons)
      from Cons.IH[OF this] False F show ?thesis by (simp add: parse_lines_Cons)
    qed
  qed
qed

lemma parse_lines_ids:
  "parse_lines ph ls = Inr ts \<Longrightarrow> map task_id ts = map line_id (filter is_task_line ls)"
proof (induction ls arbitrary: ph ts)
  case Nil then show ?case by simp
next
  case (Cons l ls)
  show ?case
  proof (cases "is_heading l")
    case True
    then have "\<not> is_task_line l" by (simp add: is_heading_def is_task_line_def)
    with True Cons show ?thesis by (simp add: parse_lines_Cons)
  next
    case False
    show ?thesis
    proof (cases "is_task_line l")
      case True
      then obtain m where m: "exec task_re l = Some m" by (auto simp: is_task_line_def)
      from mk_task_ok[OF m, of ph] obtain t where t: "mk_task ph l m = Inr t" "task_id t = line_id l" by blast
      from parse_lines_total obtain ts' where ts: "parse_lines ph ls = Inr ts'" by blast
      with Cons.prems False True m t have "ts = t # ts'" by (simp add: parse_lines_Cons)
      with Cons.IH[OF ts] True t show ?thesis by simp
    next
      case F: False
      with False Cons show ?thesis by (simp add: parse_lines_Cons)
    qed
  qed
qed

lemma parse_lines_length:
  "parse_lines ph ls = Inr ts \<Longrightarrow> length ts = length (filter is_task_line ls)"
  using parse_lines_ids[of ph ls ts] by (metis length_map)




lemma parseTasksMd_ok:
  assumes "filePath \<noteq> []" "files f filePath = Some content" "readable f filePath"
  shows "parseTasksMd f filePath = (parse_lines [] (split_nl content), f\<lparr>trace := trace f @ [OpRead filePath]\<rparr>)"
  using assms by (simp add: parseTasksMd_def readFile_def Let_def)


section \<open>Marking a line does not change how it parses\<close>

lemma lift_lift: "lift c (lift d xs) = lift (c ++ d) xs"
  by (induction xs) (auto simp: lift_def)

lemma lift_empty: "lift Map.empty xs = xs"
  by (induction xs) (auto simp: lift_def)

lemma lift_concat: "lift c (concat xss) = concat (map (lift c) xss)"
  by (induction xss) (auto simp: lift_def)

lemma lift_append: "lift c (xs @ ys) = lift c xs @ lift c ys"
  by (simp add: lift_def)

lemma ms_caps: "ms n r (s, c) = lift c (ms n r (s, Map.empty))"
proof (induction r arbitrary: s c)
  case Bol show ?case by (simp add: lift_def)
next
  case Eol show ?case by (simp add: lift_def)
next
  case Eps show ?case by (simp add: lift_def)
next
  case (Cls p) show ?case by (simp add: lift_def split: list.splits)
next
  case (Plus p) show ?case by (simp add: lift_def comp_def)
next
  case (Cat a b)
  have b: "ms n b st = lift (snd st) (ms n b (fst st, Map.empty))" for st
    using Cat.IH(2)[of "fst st" "snd st"] by simp
  have "ms n (Cat a b) (s, c) = concat (map (ms n b) (lift c (ms n a (s, Map.empty))))"
    using Cat.IH(1)[of s c] by simp
  also have "\<dots> = concat (map (\<lambda>st. lift c (ms n b st)) (ms n a (s, Map.empty)))"
  proof -
    have "ms n b (fst st, c ++ snd st) = lift c (ms n b st)" for st
      using b[of "(fst st, c ++ snd st)"] b[of st] by (simp add: lift_lift)
    then show ?thesis by (simp add: lift_def comp_def case_prod_beta)
  qed
  also have "\<dots> = lift c (ms n (Cat a b) (s, Map.empty))"
    by (simp add: lift_concat comp_def)
  finally show ?case .
next
  case (Opt a)
  show ?case using Opt.IH[of s c] by (simp add: lift_append) (simp add: lift_def)
next
  case (Grp i a)
  have "ms n (Grp i a) (s, c) =
      map (\<lambda>(s', c'). (s', c'(i \<mapsto> take (length s - length s') s))) (lift c (ms n a (s, Map.empty)))"
    using Grp.IH[of s c] by simp
  also have "\<dots> = lift c (ms n (Grp i a) (s, Map.empty))"
    by (simp add: lift_def comp_def case_prod_beta)
  finally show ?case .
qed

lemma concat_plus_det:
  assumes "list_all p w" "t = [] \<or> \<not> p (hd t)" "\<forall>x xs. p x \<longrightarrow> g (x # xs) = []"
  shows "concat (map g (plus_rests p (w @ t))) = (if w = [] then [] else g t)"
  using assms(1)
proof (induction w)
  case Nil
  from assms(2) show ?case by (cases t) auto
next
  case (Cons x w)
  then have px: "p x" and aw: "list_all p w" by auto
  show ?case
  proof (cases "w = []")
    case True
    with px Cons.IH[OF aw] show ?thesis by simp
  next
    case False
    then obtain y ys where "w = y # ys" by (cases w) auto
    with aw assms(3) have "g (w @ t) = []" by auto
    with px False Cons.IH[OF aw] show ?thesis by simp
  qed
qed

lemma ms_seq_plus_det:
  assumes "list_all p w" "w \<noteq> []" "t = [] \<or> \<not> p (hd t)"
    "\<forall>x xs c. p x \<longrightarrow> ms n (seq rs) (x # xs, c) = []"
  shows "ms n (seq (Plus p # rs)) (w @ t, c) = ms n (seq rs) (t, c)"
proof -
  have "ms n (seq (Plus p # rs)) (w @ t, c)
      = concat (map (\<lambda>r. ms n (seq rs) (r, c)) (plus_rests p (w @ t)))"
    by (simp add: ms_seq_Cons comp_def)
  also have "\<dots> = ms n (seq rs) (t, c)"
    using concat_plus_det[OF assms(1,3), of "\<lambda>r. ms n (seq rs) (r, c)"] assms(2,4) by simp
  finally show ?thesis .
qed

declare seq.simps [simp del]

lemma ms_seq_lit:
  "ms n (seq (lit ch # rs)) (s, c) =
     (case s of [] \<Rightarrow> [] | x # xs \<Rightarrow> if x = cu_of ch then ms n (seq rs) (xs, c) else [])"
  by (simp add: ms_seq_Cons lit_def split: list.splits)

lemma ms_seq_grp_cls:
  "ms n (seq (Grp i (Cls p) # rs)) (s, c) =
     (case s of [] \<Rightarrow> [] | x # xs \<Rightarrow> if p x then ms n (seq rs) (xs, c(i \<mapsto> [x])) else [])"
  by (simp add: ms_seq_Cons split: list.splits)

lemma ms_seq_opt:
  "ms n (seq (Opt r # rs)) (s, c) =
     concat (map (ms n (seq rs)) (ms n r (s, c))) @ ms n (seq rs) (s, c)"
  by (simp add: ms_seq_Cons)

lemma ws_not_bracket: "is_ws x \<Longrightarrow> x \<noteq> cu_of CHR ''[''"
  by (auto simp: is_ws_def is_line_terminator_def cu_of_def)

lemma task_re_tail:
  "task_re = Cat Bol (seq (lit CHR ''-'' # Plus is_ws # lit CHR ''['' # Grp 1 (Cls is_box) # task_tail))"
  by (simp add: task_re_def task_tail_def ptag_def stag_def task_fin_def seq.simps)

lemma box_prefix_split:
  assumes "box_prefix pre"
  obtains w where "pre = cu_of CHR ''-'' # w @ [cu_of CHR ''['']" "w \<noteq> []" "list_all is_ws w"
proof -
  from assms obtain d t where p: "pre = d # t" by (cases pre) (auto simp: box_prefix_def)
  with assms have d: "d = cu_of CHR ''-''" and t: "t \<noteq> []" "last t = cu_of CHR ''[''"
    "butlast t \<noteq> []" "list_all is_ws (butlast t)" by (auto simp: box_prefix_def)
  from t(1,2) have "t = butlast t @ [cu_of CHR ''['']" by (metis append_butlast_last_id)
  with p d t(3,4) that show ?thesis by metis
qed

lemma ms_task_head_box:
  assumes "box_prefix pre" "is_box b"
  shows "ms n (seq (lit CHR ''-'' # Plus is_ws # lit CHR ''['' # Grp 1 (Cls is_box) # task_tail))
            (pre @ b # post, Map.empty)
       = lift [1 \<mapsto> [b]] (ms n (seq task_tail) (post, Map.empty))"
proof -
  from box_prefix_split[OF assms(1)] obtain w where
    pre: "pre = cu_of CHR ''-'' # w @ [cu_of CHR ''['']" and w: "w \<noteq> []" "list_all is_ws w" by blast
  let ?K = "lit CHR ''['' # Grp 1 (Cls is_box) # task_tail"
  have rej: "\<forall>x xs c. is_ws x \<longrightarrow> ms n (seq ?K) (x # xs, c) = []"
    by (auto simp: ms_seq_lit dest: ws_not_bracket)
  have nb: "\<not> is_ws (cu_of CHR ''['')" using ws_not_bracket by blast
  have "ms n (seq (lit CHR ''-'' # Plus is_ws # ?K)) (pre @ b # post, Map.empty)
      = ms n (seq (Plus is_ws # ?K)) (w @ (cu_of CHR ''['' # b # post), Map.empty)"
    by (simp add: pre ms_seq_lit)
  also have "\<dots> = ms n (seq ?K) (cu_of CHR ''['' # b # post, Map.empty)"
    by (rule ms_seq_plus_det[OF w(2) w(1) _ rej]) (simp add: nb)
  also have "\<dots> = ms n (seq task_tail) (post, [1 \<mapsto> [b]])"
    using assms(2) by (simp add: ms_seq_lit ms_seq_grp_cls)
  also have "\<dots> = lift [1 \<mapsto> [b]] (ms n (seq task_tail) (post, Map.empty))"
    by (rule ms_caps)
  finally show ?thesis .
qed

lemma exec_task_box:
  assumes "box_prefix pre" "is_box b"
  shows "exec task_re (pre @ b # post) =
     (case ms (Suc (length pre + length post)) (seq task_tail) (post, Map.empty) of
        [] \<Rightarrow> None
      | (s, d) # _ \<Rightarrow> Some ([1 \<mapsto> [b]] ++ d))"
  unfolding task_re_tail exec_anchored ms_task_head_box[OF assms]
  by (simp add: lift_def split: list.splits)

lemma task_line_box:
  assumes "box_prefix pre" "is_box b" "is_box b'"
  shows "(exec task_re (pre @ b' # post) \<noteq> None) = (exec task_re (pre @ b # post) \<noteq> None)"
    and "line_id (pre @ b' # post) = line_id (pre @ b # post)"
proof -
  show "(exec task_re (pre @ b' # post) \<noteq> None) = (exec task_re (pre @ b # post) \<noteq> None)"
    by (simp add: exec_task_box[OF assms(1,2)] exec_task_box[OF assms(1,3)] split: list.splits)
  show "line_id (pre @ b' # post) = line_id (pre @ b # post)"
    by (simp add: line_id_def exec_task_box[OF assms(1,2)] exec_task_box[OF assms(1,3)] map_add_def
          split: list.splits option.splits)
qed

lemma phase_re_dash: "exec phase_re (cu_of CHR ''-'' # t) = None"
proof -
  have e: "phase_re = Cat Bol (seq (lit CHR ''#'' # [lit CHR ''#'', Plus is_ws,
     lit_i CHR ''p'' CHR ''P'', lit_i CHR ''h'' CHR ''H'', lit_i CHR ''a'' CHR ''A'',
     lit_i CHR ''s'' CHR ''S'', lit_i CHR ''e'' CHR ''E'',
     Plus is_ws, Plus is_digit, Plus is_colon_ws, Grp 1 (Plus is_dot), Eol]))"
    by (simp add: phase_re_def seq.simps)
  show ?thesis unfolding e exec_anchored_None by (simp add: ms_seq_lit cu_of_def)
qed

lemma box_X: "is_box (cu_of CHR ''X'')"
  by (simp add: is_box_def)

lemma mark_line_parse:
  shows "is_heading (mark_line taskId l) = is_heading l"
    and "is_task_line (mark_line taskId l) = is_task_line l"
    and "line_id (mark_line taskId l) = line_id l"
proof -
  have "is_heading (mark_line taskId l) = is_heading l
      \<and> is_task_line (mark_line taskId l) = is_task_line l
      \<and> line_id (mark_line taskId l) = line_id l"
  proof (cases "targets taskId l")
    case False then show ?thesis by (simp add: mark_line_untargeted)
  next
    case True
    from mark_line_targeted[OF True] obtain pre b post where
      l: "l = pre @ b # post" and p: "box_prefix pre" and b: "is_box b"
      and m: "mark_line taskId l = pre @ cu_of CHR ''X'' # post" by blast
    from box_prefix_split[OF p] obtain w where pre: "pre = cu_of CHR ''-'' # w @ [cu_of CHR ''['']" by blast
    have h1: "exec phase_re l = None" unfolding l pre by (simp add: phase_re_dash)
    have h2: "exec phase_re (mark_line taskId l) = None" unfolding m pre by (simp add: phase_re_dash)
    have t1: "(exec task_re (mark_line taskId l) \<noteq> None) = (exec task_re l \<noteq> None)"
      unfolding m unfolding l by (rule task_line_box(1)[OF p b box_X])
    have t2: "line_id (mark_line taskId l) = line_id l"
      unfolding m unfolding l by (rule task_line_box(2)[OF p b box_X])
    from t1 t2 h1 h2 show ?thesis
      unfolding is_heading_def is_task_line_def by simp
  qed
  then show "is_heading (mark_line taskId l) = is_heading l"
    and "is_task_line (mark_line taskId l) = is_task_line l"
    and "line_id (mark_line taskId l) = line_id l" by simp_all
qed

lemma marked_ids:
  "map line_id (filter is_task_line (map (mark_line taskId) ls)) = map line_id (filter is_task_line ls)"
  by (induction ls) (auto simp: mark_line_parse)

text \<open>
  C5. The ids the parser returns are the ids of the task lines in the order of the lines;
  and after \<open>markTaskComplete\<close> has rewritten the document, for any id, parsing it again
  returns the same sequence of ids.
\<close>

theorem parseTasksMd_ids_in_order_stable:
  assumes "filePath \<noteq> []" "trim taskId \<noteq> []" "files f filePath = Some content"
    "readable f filePath" "writable f filePath"
  shows "\<exists>ts f1 f2 ts' f3.
       parseTasksMd f filePath = (Inr ts, f1)
     \<and> map task_id ts = map line_id (filter is_task_line (split_nl content))
     \<and> markTaskComplete f1 filePath taskId = (Inr (), f2)
     \<and> parseTasksMd f2 filePath = (Inr ts', f3)
     \<and> map task_id ts' = map task_id ts"
proof -
  let ?f1 = "f\<lparr>trace := trace f @ [OpRead filePath]\<rparr>"
  let ?c' = "join_nl (map (mark_line taskId) (split_nl content))"
  let ?f2 = "?f1\<lparr>trace := trace ?f1 @ [OpRead filePath, OpWrite filePath],
               files := (files ?f1)(filePath \<mapsto> ?c')\<rparr>"
  let ?f3 = "?f2\<lparr>trace := trace ?f2 @ [OpRead filePath]\<rparr>"
  from parse_lines_total obtain ts where ts: "parse_lines [] (split_nl content) = Inr ts" by blast
  from parse_lines_total obtain ts' where ts': "parse_lines [] (split_nl ?c') = Inr ts'" by blast
  have 1: "parseTasksMd f filePath = (Inr ts, ?f1)"
    using parseTasksMd_ok[OF assms(1,3,4)] ts by simp
  have 2: "map task_id ts = map line_id (filter is_task_line (split_nl content))"
    by (rule parse_lines_ids[OF ts])
  have 3: "markTaskComplete ?f1 filePath taskId = (Inr (), ?f2)"
    by (rule markTaskComplete_ok) (use assms in simp_all)
  have 4: "parseTasksMd ?f2 filePath = (Inr ts', ?f3)"
    using parseTasksMd_ok[of filePath ?f2 ?c'] assms(1,4) ts' by simp
  have 5: "map task_id ts' = map task_id ts"
    using parse_lines_ids[OF ts'] 2 by (simp add: split_marked marked_ids)
  from 1 2 3 4 5 show ?thesis by blast
qed



theorem parseTasksMd_ids_in_order_stable_witness:
  "\<exists>ts f1 f2 ts' f3.
       parseTasksMd (fs0 (str ''tasks.md'') doc5) (str ''tasks.md'') = (Inr ts, f1)
     \<and> map task_id ts = [str ''T001'', str ''T002'', str ''T003'']
     \<and> markTaskComplete f1 (str ''tasks.md'') (str ''T001'') = (Inr (), f2)
     \<and> parseTasksMd f2 (str ''tasks.md'') = (Inr ts', f3)
     \<and> map task_id ts' = [str ''T001'', str ''T002'', str ''T003'']"
proof -
  have h1: "str ''tasks.md'' \<noteq> []" by (simp add: str_def)
  have h2: "trim (str ''T001'') \<noteq> []" by code_simp
  have h3: "files (fs0 (str ''tasks.md'') doc5) (str ''tasks.md'') = Some doc5" by (simp add: fs0_def)
  have h4: "readable (fs0 (str ''tasks.md'') doc5) (str ''tasks.md'')" by (simp add: fs0_def)
  have h5: "writable (fs0 (str ''tasks.md'') doc5) (str ''tasks.md'')" by (simp add: fs0_def)
  have i: "map line_id (filter is_task_line (split_nl doc5)) = [str ''T001'', str ''T002'', str ''T003'']"
    by code_simp
  from parseTasksMd_ids_in_order_stable[OF h1 h2 h3 h4 h5] obtain ts f1 f2 ts' f3 where
    r: "parseTasksMd (fs0 (str ''tasks.md'') doc5) (str ''tasks.md'') = (Inr ts, f1)"
      "map task_id ts = map line_id (filter is_task_line (split_nl doc5))"
      "markTaskComplete f1 (str ''tasks.md'') (str ''T001'') = (Inr (), f2)"
      "parseTasksMd f2 (str ''tasks.md'') = (Inr ts', f3)"
      "map task_id ts' = map task_id ts"
    by blast
  from r(2) i have a: "map task_id ts = [str ''T001'', str ''T002'', str ''T003'']" by simp
  from r(5) a have b: "map task_id ts' = [str ''T001'', str ''T002'', str ''T003'']" by simp
  show ?thesis
    by (rule exI[of _ ts], rule exI[of _ f1], rule exI[of _ f2], rule exI[of _ ts'], rule exI[of _ f3])
      (simp add: r(1,3,4) a b)
qed

section \<open>Tags after the id\<close>

lemma run_unique:
  assumes "\<forall>y\<in>set a. P y" "\<forall>y\<in>set b. P y" "\<not> P x" "\<not> P x'" "a @ x # s = b @ x' # t"
  shows "a = b \<and> x = x' \<and> s = t"
proof -
  have "takeWhile P (a @ x # s) = a" using assms(1,3) by (simp add: takeWhile_tail)
  moreover have "takeWhile P (b @ x' # t) = b" using assms(2,4) by (simp add: takeWhile_tail)
  ultimately have "a = b" using assms(5) by simp
  with assms(5) show ?thesis by simp
qed

lemma ws_run_unique:
  assumes "list_all is_ws a" "list_all is_ws b" "\<not> is_ws x" "\<not> is_ws y" "a @ x # s = b @ y # t"
  shows "a = b \<and> x = y \<and> s = t"
  using run_unique[of a is_ws b x y s t] assms by (simp add: list_all_iff)

lemma first_unique:
  assumes "x \<notin> set a" "x \<notin> set b" "a @ x # s = b @ x # t"
  shows "a = b \<and> s = t"
  using run_unique[of a "\<lambda>y. y \<noteq> x" b x x s t] assms by auto

lemma digit_not_ws: "is_digit x \<Longrightarrow> \<not> is_ws x"
  by (auto simp: is_digit_def is_ws_def is_line_terminator_def word_le_nat_alt)

lemma digit_not_rbracket: "is_digit x \<Longrightarrow> x \<noteq> cu_of CHR '']''"
  by (auto simp: is_digit_def cu_of_def)

lemma ws_not_digit: "is_ws x \<Longrightarrow> \<not> is_digit x"
  using digit_not_ws by blast

lemma not_ws_chars:
  "\<not> is_ws (cu_of CHR ''['')" "\<not> is_ws (cu_of CHR '']'')" "\<not> is_ws (cu_of CHR ''U'')"
  "\<not> is_ws (cu_of CHR ''T'')" "\<not> is_ws (cu_of CHR ''P'')"
  by (simp_all add: is_ws_def is_line_terminator_def cu_of_def)

lemma stag_mem:
  assumes "(s', c') \<in> set (ms n stag (s, c))"
  shows "\<exists>w4 us. w4 \<noteq> [] \<and> list_all is_ws w4 \<and> us \<noteq> [] \<and> list_all is_digit us
          \<and> s = w4 @ cu_of CHR ''['' # (cu_of CHR ''U'' # cu_of CHR ''S'' # us) @ cu_of CHR '']'' # s'
          \<and> c' = c(3 \<mapsto> cu_of CHR ''U'' # cu_of CHR ''S'' # us)"
  using assms unfolding stag_def seq.simps lit_def in_ms
  by clarsimp blast

lemma ptag_mem:
  assumes "(s', c') \<in> set (ms n ptag (s, c))"
  shows "\<exists>w3. w3 \<noteq> [] \<and> list_all is_ws w3
          \<and> s = w3 @ cu_of CHR ''['' # [cu_of CHR ''P''] @ cu_of CHR '']'' # s' \<and> c' = c"
  using assms unfolding ptag_def seq.simps lit_def in_ms
  by clarsimp

lemma stag_fails:
  assumes "\<not> is_story_tag tag" "cu_of CHR '']'' \<notin> set tag" "list_all is_ws w"
  shows "ms n stag (w @ cu_of CHR ''['' # tag @ cu_of CHR '']'' # rest, c) = []"
proof (rule ccontr)
  assume "ms n stag (w @ cu_of CHR ''['' # tag @ cu_of CHR '']'' # rest, c) \<noteq> []"
  then obtain s' c' where "(s', c') \<in> set (ms n stag (w @ cu_of CHR ''['' # tag @ cu_of CHR '']'' # rest, c))"
    by (cases "ms n stag (w @ cu_of CHR ''['' # tag @ cu_of CHR '']'' # rest, c)") auto
  from stag_mem[OF this] obtain w4 us where
    w4: "list_all is_ws w4" and us: "us \<noteq> []" "list_all is_digit us"
    and e: "w @ cu_of CHR ''['' # tag @ cu_of CHR '']'' # rest
        = w4 @ cu_of CHR ''['' # (cu_of CHR ''U'' # cu_of CHR ''S'' # us) @ cu_of CHR '']'' # s'"
    by blast
  from ws_run_unique[OF assms(3) w4 not_ws_chars(1) not_ws_chars(1) e]
  have e2: "tag @ cu_of CHR '']'' # rest = (cu_of CHR ''U'' # cu_of CHR ''S'' # us) @ cu_of CHR '']'' # s'"
    by simp
  have nin: "cu_of CHR '']'' \<notin> set (cu_of CHR ''U'' # cu_of CHR ''S'' # us)"
    using us(2) digit_not_rbracket by (auto simp: list_all_iff cu_of_def)
  have "tag = cu_of CHR ''U'' # cu_of CHR ''S'' # us \<and> rest = s'"
    by (rule first_unique[OF assms(2) nin e2])
  then have "tag = cu_of CHR ''U'' # cu_of CHR ''S'' # us" by simp
  with us assms(1) show False by (simp add: is_story_tag_def)
qed

lemma ptag_fails:
  assumes "tag \<noteq> [cu_of CHR ''P'']" "cu_of CHR '']'' \<notin> set tag" "list_all is_ws w"
  shows "ms n ptag (w @ cu_of CHR ''['' # tag @ cu_of CHR '']'' # rest, c) = []"
proof (rule ccontr)
  assume "ms n ptag (w @ cu_of CHR ''['' # tag @ cu_of CHR '']'' # rest, c) \<noteq> []"
  then obtain s' c' where "(s', c') \<in> set (ms n ptag (w @ cu_of CHR ''['' # tag @ cu_of CHR '']'' # rest, c))"
    by (cases "ms n ptag (w @ cu_of CHR ''['' # tag @ cu_of CHR '']'' # rest, c)") auto
  from ptag_mem[OF this] obtain w3 where
    w3: "list_all is_ws w3"
    and e: "w @ cu_of CHR ''['' # tag @ cu_of CHR '']'' # rest
        = w3 @ cu_of CHR ''['' # [cu_of CHR ''P''] @ cu_of CHR '']'' # s'"
    by blast
  from ws_run_unique[OF assms(3) w3 not_ws_chars(1) not_ws_chars(1) e]
  have e2: "tag @ cu_of CHR '']'' # rest = [cu_of CHR ''P''] @ cu_of CHR '']'' # s'"
    by simp
  have nin: "cu_of CHR '']'' \<notin> set [cu_of CHR ''P'']" by (simp add: cu_of_def)
  have "tag = [cu_of CHR ''P''] \<and> rest = s'"
    by (rule first_unique[OF assms(2) nin e2])
  then have "tag = [cu_of CHR ''P'']" by simp
  with assms(1) show False by simp
qed

lemma ptag_matches:
  assumes "w3 \<noteq> []" "list_all is_ws w3"
  shows "ms n ptag (w3 @ cu_of CHR ''['' # cu_of CHR ''P'' # cu_of CHR '']'' # t, c) = [(t, c)]"
proof -
  have rej: "\<forall>x xs c. is_ws x \<longrightarrow> ms n (seq [lit CHR ''['', lit CHR ''P'', lit CHR '']'']) (x # xs, c) = []"
    by (auto simp: ms_seq_lit dest: ws_not_bracket)
  have "ms n ptag (w3 @ cu_of CHR ''['' # cu_of CHR ''P'' # cu_of CHR '']'' # t, c)
      = ms n (seq [lit CHR ''['', lit CHR ''P'', lit CHR '']'']) (cu_of CHR ''['' # cu_of CHR ''P'' # cu_of CHR '']'' # t, c)"
    unfolding ptag_def by (rule ms_seq_plus_det[OF assms(2,1) _ rej]) (simp add: not_ws_chars)
  also have "\<dots> = [(t, c)]" by (simp add: ms_seq_lit ms_seq_Nil)
  finally show ?thesis .
qed

lemma grp_T_digits_det:
  assumes "list_all is_digit ds" "ds \<noteq> []" "t = [] \<or> \<not> is_digit (hd t)"
    "\<forall>x xs c. is_digit x \<longrightarrow> ms n (seq rs) (x # xs, c) = []"
  shows "ms n (seq (Grp i (seq [lit CHR ''T'', Plus is_digit]) # rs)) (cu_of CHR ''T'' # ds @ t, c)
       = ms n (seq rs) (t, c(i \<mapsto> cu_of CHR ''T'' # ds))"
proof -
  let ?g = "\<lambda>r. ms n (seq rs) (r, c(i \<mapsto> take (Suc (length (ds @ t)) - length r) (cu_of CHR ''T'' # ds @ t)))"
  have "ms n (seq (Grp i (seq [lit CHR ''T'', Plus is_digit]) # rs)) (cu_of CHR ''T'' # ds @ t, c)
      = concat (map ?g (plus_rests is_digit (ds @ t)))"
    by (simp add: ms_seq_Cons seq.simps lit_def comp_def)
  also have "\<dots> = ?g t"
    using concat_plus_det[OF assms(1,3), of ?g] assms(2,4) by simp
  also have "\<dots> = ms n (seq rs) (t, c(i \<mapsto> cu_of CHR ''T'' # ds))" by simp
  finally show ?thesis .
qed

lemma plus_rests_reject: "\<not> p x \<Longrightarrow> plus_rests p (x # xs) = []"
  by simp

lemma tags_fin_reject_digit:
  "is_digit x \<Longrightarrow> ms n (seq (Opt ptag # Opt stag # task_fin)) (x # xs, c) = []"
  using digit_not_ws[of x]
  by (simp add: ms_seq_opt ptag_def stag_def task_fin_def ms_seq_Cons)

lemma grp_T_reject_ws:
  "is_ws x \<Longrightarrow> ms n (seq (Grp i (seq [lit CHR ''T'', Plus is_digit]) # rs)) (x # xs, c) = []"
  using not_ws_chars(4) by (auto simp: ms_seq_Cons seq.simps lit_def)

lemma stag_fails_P:
  assumes "list_all is_ws w3"
  shows "ms n stag (w3 @ cu_of CHR ''['' # cu_of CHR ''P'' # cu_of CHR '']'' # t, c) = []"
proof -
  have 1: "\<not> is_story_tag [cu_of CHR ''P'']" by (simp add: is_story_tag_def)
  have 2: "cu_of CHR '']'' \<notin> set [cu_of CHR ''P'']" by (simp add: cu_of_def)
  from stag_fails[OF 1 2 assms, of n t c] show ?thesis by simp
qed

lemma fin_nonempty:
  assumes "w \<noteq> []" "list_all is_ws w" "d \<noteq> []" "list_all is_dot d"
  shows "ms n (seq task_fin) (w @ d, c) \<noteq> []"
proof -
  have "([], c(4 \<mapsto> d)) \<in> set (ms n (seq task_fin) (w @ d, c))"
    unfolding fin_mem using assms by blast
  then show ?thesis by auto
qed

text \<open>The tail of the pattern on a line with a bracketed tag after the id and the optional [P].\<close>

lemma task_tail_tagged:
  assumes w2: "w2 \<noteq> []" "list_all is_ws w2" and ds: "ds \<noteq> []" "list_all is_digit ds"
    and popt: "popt = [] \<or> (\<exists>w3. w3 \<noteq> [] \<and> list_all is_ws w3 \<and> popt = w3 @ str ''[P]'')"
    and w: "w \<noteq> []" "list_all is_ws w"
    and tag: "cu_of CHR '']'' \<notin> set tag" "\<not> is_story_tag tag" "popt = [] \<longrightarrow> tag \<noteq> str ''P''"
  shows "\<exists>L2. ms n (seq task_tail)
           (cu_of CHR '']'' # w2 @ cu_of CHR ''T'' # ds @ popt @ w @ cu_of CHR ''['' # tag @ cu_of CHR '']'' # rest,
            Map.empty)
         = ms n (seq task_fin) (w @ cu_of CHR ''['' # tag @ cu_of CHR '']'' # rest, [2 \<mapsto> cu_of CHR ''T'' # ds]) @ L2
       \<and> (ms n (seq task_fin) (w @ cu_of CHR ''['' # tag @ cu_of CHR '']'' # rest, [2 \<mapsto> cu_of CHR ''T'' # ds]) = []
            \<longrightarrow> L2 = [])"
proof -
  let ?tagged = "w @ cu_of CHR ''['' # tag @ cu_of CHR '']'' # rest"
  let ?after = "popt @ ?tagged"
  define c2 :: caps where "c2 = [2 \<mapsto> cu_of CHR ''T'' # ds]"
  let ?K = "Opt ptag # Opt stag # task_fin"
  have after_ws: "?after = [] \<or> \<not> is_digit (hd ?after)"
  proof -
    have "\<exists>y ys. ?after = y # ys \<and> is_ws y"
    proof (cases "popt = []")
      case True
      from w obtain y ys where "w = y # ys" "is_ws y" by (cases w) auto
      with True show ?thesis by simp
    next
      case False
      with popt obtain w3 where "w3 \<noteq> []" "list_all is_ws w3" "popt = w3 @ str ''[P]''" by blast
      then obtain y ys where "w3 = y # ys" "is_ws y" "popt = (y # ys) @ str ''[P]''" by (cases w3) auto
      then show ?thesis by simp
    qed
    then show ?thesis using ws_not_digit by auto
  qed
  have "ms n (seq task_tail) (cu_of CHR '']'' # w2 @ cu_of CHR ''T'' # ds @ ?after, Map.empty)
      = ms n (seq (Plus is_ws # Grp 2 (seq [lit CHR ''T'', Plus is_digit]) # ?K))
          (w2 @ (cu_of CHR ''T'' # ds @ ?after), Map.empty)"
    by (simp add: task_tail_def ms_seq_lit)
  also have "\<dots> = ms n (seq (Grp 2 (seq [lit CHR ''T'', Plus is_digit]) # ?K))
          (cu_of CHR ''T'' # ds @ ?after, Map.empty)"
    by (rule ms_seq_plus_det[OF w2(2) w2(1)]) (simp_all add: not_ws_chars grp_T_reject_ws)
  also have "\<dots> = ms n (seq ?K) (?after, c2)"
    unfolding c2_def by (rule grp_T_digits_det[OF ds(2) ds(1) after_ws]) (simp add: tags_fin_reject_digit)
  finally have start: "ms n (seq task_tail) (cu_of CHR '']'' # w2 @ cu_of CHR ''T'' # ds @ ?after, Map.empty)
      = ms n (seq ?K) (?after, c2)" .
  have tagged: "ms n (seq (Opt stag # task_fin)) (?tagged, c2) = ms n (seq task_fin) (?tagged, c2)"
    by (simp add: ms_seq_opt stag_fails[OF tag(2,1) w(2)])
  show ?thesis
  proof (cases "popt = []")
    case True
    with tag(3) have "tag \<noteq> [cu_of CHR ''P'']" by (simp add: str_def)
    from ptag_fails[OF this tag(1) w(2)] True tagged
    have "ms n (seq ?K) (?after, c2) = ms n (seq task_fin) (?tagged, c2) @ []"
      by (simp add: ms_seq_opt)
    with start show ?thesis unfolding c2_def by (metis (no_types, lifting) append_assoc)
  next
    case False
    with popt obtain w3 where w3: "w3 \<noteq> []" "list_all is_ws w3" and p: "popt = w3 @ str ''[P]''" by blast
    have after: "?after = w3 @ cu_of CHR ''['' # cu_of CHR ''P'' # cu_of CHR '']'' # ?tagged"
      by (simp add: p str_def)
    let ?L2 = "ms n (seq task_fin) (?after, c2)"
    have "ms n (seq ?K) (?after, c2)
        = ms n (seq (Opt stag # task_fin)) (?tagged, c2) @ ms n (seq (Opt stag # task_fin)) (?after, c2)"
      unfolding after by (simp add: ms_seq_opt[of n ptag] ptag_matches[OF w3])
    also have "ms n (seq (Opt stag # task_fin)) (?after, c2) = ?L2"
      unfolding after by (simp add: ms_seq_opt stag_fails_P[OF w3(2)])
    finally have split: "ms n (seq ?K) (?after, c2) = ms n (seq task_fin) (?tagged, c2) @ ?L2"
      by (simp add: tagged)
    have "?L2 = []" if e: "ms n (seq task_fin) (?tagged, c2) = []"
    proof (rule ccontr)
      assume "?L2 \<noteq> []"
      then obtain s' c' where "(s', c') \<in> set ?L2" by (cases ?L2) auto
      then obtain w5 d where d: "?after = w5 @ d" "w5 \<noteq> []" "list_all is_ws w5" "list_all is_dot d"
        unfolding fin_mem by blast
      from d(2) obtain y w5' where w5: "w5 = w5' @ [y]" by (metis rev_exhaust)
      have "\<exists>u. d = u @ cu_of CHR ''['' # tag @ cu_of CHR '']'' # rest"
      proof -
        have "takeWhile is_ws ?after = w3" unfolding after using w3(2) not_ws_chars(1)
          by (simp add: list_all_iff takeWhile_tail)
        moreover have "takeWhile is_ws (w5 @ d) = w5 @ takeWhile is_ws d"
          using d(3) by (simp add: list_all_iff takeWhile_append2)
        ultimately have "w3 = w5 @ takeWhile is_ws d" using d(1) by simp
        then have "w5 @ d = w5 @ takeWhile is_ws d @ cu_of CHR ''['' # cu_of CHR ''P'' # cu_of CHR '']'' # ?tagged"
          using d(1) after by simp
        then have "d = (takeWhile is_ws d @ cu_of CHR ''['' # cu_of CHR ''P'' # cu_of CHR '']'' # w)
             @ cu_of CHR ''['' # tag @ cu_of CHR '']'' # rest" by simp
        then show ?thesis by blast
      qed
      then obtain u where u: "d = u @ cu_of CHR ''['' # tag @ cu_of CHR '']'' # rest" by blast
      with d(4) have "list_all is_dot (cu_of CHR ''['' # tag @ cu_of CHR '']'' # rest)" by simp
      from fin_nonempty[OF w _ this, of n c2] e show False by simp
    qed
    with start split show ?thesis unfolding c2_def by metis
  qed
qed

lemma dropWhile_stop: "\<not> P y \<Longrightarrow> dropWhile P (xs @ y # zs) = dropWhile P xs @ y # zs"
  by (induction xs) auto

lemma trim_ws_prefix: "list_all is_ws a \<Longrightarrow> trim (a @ s) = trim s"
  by (simp add: trim_def list_all_iff dropWhile_append2)

lemma trim_bracketed:
  assumes "\<not> is_ws x" "\<not> is_ws y"
  shows "trim (x # tag @ y # rest) = x # tag @ y # rev (dropWhile is_ws (rev rest))"
proof -
  have "dropWhile is_ws (rev rest @ y # rev tag @ [x]) = dropWhile is_ws (rev rest) @ y # rev tag @ [x]"
    by (rule dropWhile_stop[of is_ws y, OF assms(2)])
  with assms(1) show ?thesis by (simp add: trim_def)
qed

lemma trim_noop:
  assumes "s \<noteq> []" "\<not> is_ws (hd s)" "\<not> is_ws (last s)"
  shows "trim s = s"
proof -
  from assms(1,2) have 1: "dropWhile is_ws s = s" by (cases s) auto
  from assms(1,3) have 2: "dropWhile is_ws (rev s) = rev s" by (cases "rev s") (auto simp: last_rev[symmetric] simp del: last_rev)
  show ?thesis by (simp add: trim_def 1 2)
qed

lemma trim_T_digits:
  assumes "list_all is_digit ds"
  shows "trim (cu_of CHR ''T'' # ds) = cu_of CHR ''T'' # ds"
proof (rule trim_noop)
  show "cu_of CHR ''T'' # ds \<noteq> []" by simp
  show "\<not> is_ws (hd (cu_of CHR ''T'' # ds))" by (simp add: not_ws_chars)
  show "\<not> is_ws (last (cu_of CHR ''T'' # ds))"
    using assms digit_not_ws by (cases "ds = []") (auto simp: not_ws_chars list_all_iff)
qed

lemma trim_US_digits:
  assumes "list_all is_digit us" "us \<noteq> []"
  shows "trim (str ''US'' @ us) = str ''US'' @ us"
proof (rule trim_noop)
  show "str ''US'' @ us \<noteq> []" by (simp add: str_def)
  show "\<not> is_ws (hd (str ''US'' @ us))" by (simp add: str_def not_ws_chars)
  show "\<not> is_ws (last (str ''US'' @ us))"
    using assms digit_not_ws by (auto simp: list_all_iff)
qed

lemma story_needs_US_tag:
  assumes "exec task_re line = Some m" "mk_task ph line m = Inr t" and s: "story t = Some s"
  shows "\<exists>w1 b w2 ds popt w4 us w5 d.
          line = cu_of CHR ''-'' # w1 @ cu_of CHR ''['' # b # cu_of CHR '']'' # w2 @ cu_of CHR ''T'' # ds
                   @ popt @ w4 @ cu_of CHR ''['' # s @ cu_of CHR '']'' # w5 @ d
          \<and> s = str ''US'' @ us \<and> us \<noteq> [] \<and> list_all is_digit us
          \<and> w1 \<noteq> [] \<and> list_all is_ws w1 \<and> is_box b \<and> w2 \<noteq> [] \<and> list_all is_ws w2
          \<and> ds \<noteq> [] \<and> list_all is_digit ds \<and> task_id t = cu_of CHR ''T'' # ds
          \<and> (popt = [] \<or> (\<exists>w3. w3 \<noteq> [] \<and> list_all is_ws w3 \<and> popt = w3 @ str ''[P]''))
          \<and> w4 \<noteq> [] \<and> list_all is_ws w4 \<and> w5 \<noteq> [] \<and> list_all is_ws w5
          \<and> d \<noteq> [] \<and> list_all is_dot d"
proof -
  from task_shape[OF assms(1)] obtain w1 b w2 ds popt sopt w5 d where
    line: "line = cu_of CHR ''-'' # w1 @ cu_of CHR ''['' # b # cu_of CHR '']'' # w2 @ cu_of CHR ''T'' # ds
             @ popt @ sopt @ w5 @ d"
    and hw: "w1 \<noteq> []" "list_all is_ws w1" "is_box b" "w2 \<noteq> []" "list_all is_ws w2"
      "ds \<noteq> []" "list_all is_digit ds"
    and pp: "popt = [] \<or> (\<exists>w3. w3 \<noteq> [] \<and> list_all is_ws w3 \<and> popt = w3 @ str ''[P]'')"
    and ss: "sopt = [] \<and> m 3 = None
        \<or> (\<exists>w4 us. w4 \<noteq> [] \<and> list_all is_ws w4 \<and> us \<noteq> [] \<and> list_all is_digit us
              \<and> sopt = w4 @ str ''[US'' @ us @ str '']'' \<and> m 3 = Some (str ''US'' @ us))"
    and fw: "w5 \<noteq> []" "list_all is_ws w5" "d \<noteq> []" "list_all is_dot d"
    and mm: "m 1 = Some [b]" "m 2 = Some (cu_of CHR ''T'' # ds)" "m 4 = Some d"
    by blast
  from assms(2) mm have st: "story t = map_option trim (m 3)" and ti: "task_id t = trim (cu_of CHR ''T'' # ds)"
    by (auto simp: mk_task_def)
  from st s ss obtain w4 us where
    w4: "w4 \<noteq> []" "list_all is_ws w4" and us: "us \<noteq> []" "list_all is_digit us"
    and so: "sopt = w4 @ str ''[US'' @ us @ str '']''" and m3: "m 3 = Some (str ''US'' @ us)"
    by auto
  from st s m3 have se: "s = str ''US'' @ us" by (simp add: trim_US_digits[OF us(2,1)])
  have l2: "line = cu_of CHR ''-'' # w1 @ cu_of CHR ''['' # b # cu_of CHR '']'' # w2 @ cu_of CHR ''T'' # ds
                   @ popt @ w4 @ cu_of CHR ''['' # s @ cu_of CHR '']'' # w5 @ d"
    using line so se by (simp add: str_def)
  have ti': "task_id t = cu_of CHR ''T'' # ds" using ti by (simp add: trim_T_digits[OF hw(7)])
  from l2 se us hw ti' pp w4 fw show ?thesis by blast
qed

lemma other_tag_stays:
  assumes "exec task_re line = Some m" "mk_task ph line m = Inr t"
    and a: "line = cu_of CHR ''-'' # w1 @ cu_of CHR ''['' # b # cu_of CHR '']'' # w2 @ cu_of CHR ''T'' # ds
                   @ popt @ w @ cu_of CHR ''['' # tag @ cu_of CHR '']'' # rest
          \<and> w1 \<noteq> [] \<and> list_all is_ws w1 \<and> is_box b \<and> w2 \<noteq> [] \<and> list_all is_ws w2
          \<and> ds \<noteq> [] \<and> list_all is_digit ds
          \<and> (popt = [] \<or> (\<exists>w3. w3 \<noteq> [] \<and> list_all is_ws w3 \<and> popt = w3 @ str ''[P]''))
          \<and> w \<noteq> [] \<and> list_all is_ws w
          \<and> cu_of CHR '']'' \<notin> set tag \<and> \<not> is_story_tag tag \<and> (popt = [] \<longrightarrow> tag \<noteq> str ''P'')"
  shows "story t = None \<and> (\<exists>r. description t = cu_of CHR ''['' # tag @ cu_of CHR '']'' # r)"
proof -
  let ?pre = "cu_of CHR ''-'' # w1 @ [cu_of CHR ''['']"
  let ?tagged = "w @ cu_of CHR ''['' # tag @ cu_of CHR '']'' # rest"
  let ?post = "cu_of CHR '']'' # w2 @ cu_of CHR ''T'' # ds @ popt @ ?tagged"
  let ?n = "Suc (length ?pre + length ?post)"
  let ?L1 = "ms ?n (seq task_fin) (?tagged, [2 \<mapsto> cu_of CHR ''T'' # ds])"
  from a have line: "line = ?pre @ b # ?post" by simp
  from a have bp: "box_prefix ?pre" by (simp add: box_prefix_def)
  from a have b: "is_box b" by simp
  from a have tt: "\<exists>L2. ms ?n (seq task_tail) (?post, Map.empty) = ?L1 @ L2 \<and> (?L1 = [] \<longrightarrow> L2 = [])"
    by (intro task_tail_tagged) simp_all
  then obtain L2 where L: "ms ?n (seq task_tail) (?post, Map.empty) = ?L1 @ L2" and L2: "?L1 = [] \<longrightarrow> L2 = []"
    by blast
  from assms(1) have ex: "exec task_re (?pre @ b # ?post) = Some m" unfolding line .
  have ne: "?L1 \<noteq> []"
  proof
    assume "?L1 = []"
    with L L2 have "ms ?n (seq task_tail) (?post, Map.empty) = []" by simp
    with ex show False unfolding exec_task_box[OF bp b] by simp
  qed
  then obtain s1 d1 L1' where L1: "?L1 = (s1, d1) # L1'" by (cases ?L1) auto
  with L ex have m: "m = [1 \<mapsto> [b]] ++ d1" unfolding exec_task_box[OF bp b] by simp
  from L1 have "(s1, d1) \<in> set ?L1" by simp
  then obtain w5 d where d: "?tagged = w5 @ d" "w5 \<noteq> []" "list_all is_ws w5"
    and d1: "d1 = [2 \<mapsto> cu_of CHR ''T'' # ds, 4 \<mapsto> d]"
    unfolding fin_mem by blast
  have m3: "m 3 = None" and m4: "m 4 = Some d" and m1: "m 1 = Some [b]" and m2: "m 2 = Some (cu_of CHR ''T'' # ds)"
    by (simp_all add: m d1 map_add_def)
  have "\<exists>u. list_all is_ws u \<and> d = u @ cu_of CHR ''['' # tag @ cu_of CHR '']'' # rest"
  proof -
    from a have ww: "list_all is_ws w" by simp
    have "takeWhile is_ws ?tagged = w" using ww not_ws_chars(1)
      by (simp add: list_all_iff takeWhile_tail)
    moreover have "takeWhile is_ws (w5 @ d) = w5 @ takeWhile is_ws d"
      using d(3) by (simp add: list_all_iff takeWhile_append2)
    ultimately have w: "w = w5 @ takeWhile is_ws d" using d(1) by simp
    then have "w5 @ d = w5 @ takeWhile is_ws d @ cu_of CHR ''['' # tag @ cu_of CHR '']'' # rest"
      using d(1) by simp
    then have "d = takeWhile is_ws d @ cu_of CHR ''['' # tag @ cu_of CHR '']'' # rest" by simp
    moreover have "list_all is_ws (takeWhile is_ws d)"
      by (simp add: list_all_iff) (meson set_takeWhileD)
    ultimately show ?thesis by blast
  qed
  then obtain u where u: "list_all is_ws u" "d = u @ cu_of CHR ''['' # tag @ cu_of CHR '']'' # rest" by blast
  have td: "trim d = cu_of CHR ''['' # tag @ cu_of CHR '']'' # rev (dropWhile is_ws (rev rest))"
    unfolding u(2) trim_ws_prefix[OF u(1)] by (rule trim_bracketed[OF not_ws_chars(1,2)])
  from assms(2) m1 m2 m3 m4 have "story t = None" "description t = trim d"
    by (auto simp: mk_task_def)
  with td show ?thesis by simp
qed

lemma mk_task_story:
  assumes "exec task_re line = Some m" "mk_task ph line m = Inr t"
  shows "story t = line_story line"
  using assms by (auto simp: mk_task_def line_story_def split: option.splits)

text \<open>The record the loop pushes for a task line is the one \<open>mk_task\<close> builds from the match.\<close>

lemma parse_lines_first_built:
  assumes "is_task_line l"
  shows "\<exists>m t ts. exec task_re l = Some m \<and> mk_task ph l m = Inr t
     \<and> parse_lines ph (l # ls) = Inr (t # ts)"
proof -
  from assms obtain m where m: "exec task_re l = Some m" and nh: "\<not> is_heading l"
    by (auto simp: is_task_line_def is_heading_def)
  from mk_task_ok[OF m, of ph] obtain t where t: "mk_task ph l m = Inr t" by blast
  from parse_lines_total obtain ts where ts: "parse_lines ph ls = Inr ts" by blast
  from assms nh m t ts have "parse_lines ph (l # ls) = Inr (t # ts)" by (simp add: parse_lines_Cons)
  with m t show ?thesis by blast
qed

lemma parseTasksMd_record:
  assumes "filePath \<noteq> []" "files f filePath = Some content" "readable f filePath"
    and "split_nl content = pre @ line # post" "is_task_line line"
  shows "\<exists>ts f' m. parseTasksMd f filePath = (Inr ts, f')
     \<and> length ts = length (filter is_task_line (split_nl content))
     \<and> length (filter is_task_line pre) < length ts
     \<and> exec task_re line = Some m
     \<and> mk_task (phase_after [] pre) line m = Inr (ts ! length (filter is_task_line pre))"
proof -
  from parse_lines_total obtain ta where ta: "parse_lines [] pre = Inr ta" by blast
  from parse_lines_first_built[OF assms(5)] obtain m t tb where
    m: "exec task_re line = Some m" and t: "mk_task (phase_after [] pre) line m = Inr t"
    and tb: "parse_lines (phase_after [] pre) (line # post) = Inr (t # tb)" by blast
  from parse_lines_append[OF ta tb] have all: "parse_lines [] (split_nl content) = Inr (ta @ t # tb)"
    by (simp add: assms(4))
  have la: "length ta = length (filter is_task_line pre)" by (rule parse_lines_length[OF ta])
  have len: "length (ta @ t # tb) = length (filter is_task_line (split_nl content))"
    by (rule parse_lines_length[OF all])
  have nth: "(ta @ t # tb) ! length (filter is_task_line pre) = t" using la by (metis nth_append_length)
  have lt: "length (filter is_task_line pre) < length (ta @ t # tb)" using la by simp
  from parseTasksMd_ok[OF assms(1-3)] all len lt nth m t show ?thesis by auto
qed

text \<open>
  C10. Split the document at any task line: lines \<open>pre\<close>, the task line, lines \<open>post\<close>. The
  parser returns one record for each task line, in order, and for the record \<open>t\<close> of this
  line (the one at the position counting the task lines of \<open>pre\<close>): its story is group 3 of
  the match of the line, trimmed, or \<open>undefined\<close>; if \<open>story\<close> is set, its value is \<open>US\<close>
  and at least one digit, and the line carries it in brackets after the id and after the
  optional \<open>[P]\<close>, white space before it; and if what stands in brackets there is a tag of
  another shape (not \<open>US\<close> and digits, and not the \<open>[P]\<close> itself), then \<open>story\<close> is
  \<open>undefined\<close> and the description of the record begins with the bracketed tag.
\<close>

theorem parseTasksMd_story_tag:
  assumes "filePath \<noteq> []" "files f filePath = Some content" "readable f filePath"
    and "split_nl content = pre @ line # post" "is_task_line line"
  shows "\<exists>ts f' t. parseTasksMd f filePath = (Inr ts, f')
     \<and> length ts = length (filter is_task_line (split_nl content))
     \<and> length (filter is_task_line pre) < length ts
     \<and> t = ts ! length (filter is_task_line pre)
     \<and> task_id t = line_id line
     \<and> story t = line_story line
     \<and> (\<forall>s. story t = Some s \<longrightarrow>
       (\<exists>w1 b w2 ds popt w4 us w5 d.
          line = cu_of CHR ''-'' # w1 @ cu_of CHR ''['' # b # cu_of CHR '']'' # w2 @ cu_of CHR ''T'' # ds
                   @ popt @ w4 @ cu_of CHR ''['' # s @ cu_of CHR '']'' # w5 @ d
          \<and> s = str ''US'' @ us \<and> us \<noteq> [] \<and> list_all is_digit us
          \<and> w1 \<noteq> [] \<and> list_all is_ws w1 \<and> is_box b \<and> w2 \<noteq> [] \<and> list_all is_ws w2
          \<and> ds \<noteq> [] \<and> list_all is_digit ds \<and> task_id t = cu_of CHR ''T'' # ds
          \<and> (popt = [] \<or> (\<exists>w3. w3 \<noteq> [] \<and> list_all is_ws w3 \<and> popt = w3 @ str ''[P]''))
          \<and> w4 \<noteq> [] \<and> list_all is_ws w4 \<and> w5 \<noteq> [] \<and> list_all is_ws w5
          \<and> d \<noteq> [] \<and> list_all is_dot d))
     \<and> (\<forall>w1 b w2 ds popt w tag rest.
          line = cu_of CHR ''-'' # w1 @ cu_of CHR ''['' # b # cu_of CHR '']'' # w2 @ cu_of CHR ''T'' # ds
                   @ popt @ w @ cu_of CHR ''['' # tag @ cu_of CHR '']'' # rest
          \<and> w1 \<noteq> [] \<and> list_all is_ws w1 \<and> is_box b \<and> w2 \<noteq> [] \<and> list_all is_ws w2
          \<and> ds \<noteq> [] \<and> list_all is_digit ds
          \<and> (popt = [] \<or> (\<exists>w3. w3 \<noteq> [] \<and> list_all is_ws w3 \<and> popt = w3 @ str ''[P]''))
          \<and> w \<noteq> [] \<and> list_all is_ws w
          \<and> cu_of CHR '']'' \<notin> set tag \<and> \<not> is_story_tag tag \<and> (popt = [] \<longrightarrow> tag \<noteq> str ''P'')
          \<longrightarrow> story t = None \<and> (\<exists>r. description t = cu_of CHR ''['' # tag @ cu_of CHR '']'' # r))"
proof -
  from parseTasksMd_record[OF assms] obtain ts f' m where
    r: "parseTasksMd f filePath = (Inr ts, f')"
      "length ts = length (filter is_task_line (split_nl content))"
      "length (filter is_task_line pre) < length ts"
    and m: "exec task_re line = Some m"
    and t: "mk_task (phase_after [] pre) line m = Inr (ts ! length (filter is_task_line pre))"
    by blast
  let ?t = "ts ! length (filter is_task_line pre)"
  from mk_task_ok[OF m, of "phase_after [] pre"] t have id: "task_id ?t = line_id line" by simp
  have st: "story ?t = line_story line" by (rule mk_task_story[OF m t])
  have a: "\<forall>s. story ?t = Some s \<longrightarrow>
       (\<exists>w1 b w2 ds popt w4 us w5 d.
          line = cu_of CHR ''-'' # w1 @ cu_of CHR ''['' # b # cu_of CHR '']'' # w2 @ cu_of CHR ''T'' # ds
                   @ popt @ w4 @ cu_of CHR ''['' # s @ cu_of CHR '']'' # w5 @ d
          \<and> s = str ''US'' @ us \<and> us \<noteq> [] \<and> list_all is_digit us
          \<and> w1 \<noteq> [] \<and> list_all is_ws w1 \<and> is_box b \<and> w2 \<noteq> [] \<and> list_all is_ws w2
          \<and> ds \<noteq> [] \<and> list_all is_digit ds \<and> task_id ?t = cu_of CHR ''T'' # ds
          \<and> (popt = [] \<or> (\<exists>w3. w3 \<noteq> [] \<and> list_all is_ws w3 \<and> popt = w3 @ str ''[P]''))
          \<and> w4 \<noteq> [] \<and> list_all is_ws w4 \<and> w5 \<noteq> [] \<and> list_all is_ws w5
          \<and> d \<noteq> [] \<and> list_all is_dot d)"
    using story_needs_US_tag[OF m t] by blast
  have b: "\<forall>w1 b w2 ds popt w tag rest.
          line = cu_of CHR ''-'' # w1 @ cu_of CHR ''['' # b # cu_of CHR '']'' # w2 @ cu_of CHR ''T'' # ds
                   @ popt @ w @ cu_of CHR ''['' # tag @ cu_of CHR '']'' # rest
          \<and> w1 \<noteq> [] \<and> list_all is_ws w1 \<and> is_box b \<and> w2 \<noteq> [] \<and> list_all is_ws w2
          \<and> ds \<noteq> [] \<and> list_all is_digit ds
          \<and> (popt = [] \<or> (\<exists>w3. w3 \<noteq> [] \<and> list_all is_ws w3 \<and> popt = w3 @ str ''[P]''))
          \<and> w \<noteq> [] \<and> list_all is_ws w
          \<and> cu_of CHR '']'' \<notin> set tag \<and> \<not> is_story_tag tag \<and> (popt = [] \<longrightarrow> tag \<noteq> str ''P'')
          \<longrightarrow> story ?t = None \<and> (\<exists>r. description ?t = cu_of CHR ''['' # tag @ cu_of CHR '']'' # r)"
    using other_tag_stays[OF m t] by blast
  show ?thesis
    apply (rule exI[of _ ts], rule exI[of _ f'], rule exI[of _ ?t])
    apply (intro conjI)
           apply (rule r(1))
          apply (rule r(2))
         apply (rule r(3))
        apply (rule refl)
       apply (rule id)
      apply (rule st)
     apply (rule a)
    apply (rule b)
    done
qed

lemma tag_doc_lines:
  "split_nl tag_doc = [str ''- [ ] T001 [AUTH] foo'', str ''- [ ] T002 [P] [us1] bar'',
     str ''- [ ] T003 [P] [US1] Build core'']"
  by code_simp

lemma tag_doc_task_lines:
  "is_task_line (str ''- [ ] T001 [AUTH] foo'')" "is_task_line (str ''- [ ] T002 [P] [us1] bar'')"
  "is_task_line (str ''- [ ] T003 [P] [US1] Build core'')"
  by code_simp+

theorem parseTasksMd_story_tag_witness:
  "\<exists>ts f'. parseTasksMd (fs0 (str ''tasks.md'') tag_doc) (str ''tasks.md'') = (Inr ts, f')
     \<and> length ts = 3
     \<and> task_id (ts ! 0) = str ''T001'' \<and> story (ts ! 0) = None
     \<and> (\<exists>r. description (ts ! 0) = str ''[AUTH]'' @ r)
     \<and> task_id (ts ! 1) = str ''T002'' \<and> story (ts ! 1) = None
     \<and> (\<exists>r. description (ts ! 1) = str ''[us1]'' @ r)
     \<and> task_id (ts ! 2) = str ''T003''
     \<and> (\<exists>us. story (ts ! 2) = Some (str ''US'' @ us) \<and> us \<noteq> [] \<and> list_all is_digit us)"
proof -
  let ?f = "fs0 (str ''tasks.md'') tag_doc" and ?p = "str ''tasks.md''"
  let ?l0 = "str ''- [ ] T001 [AUTH] foo''" and ?l1 = "str ''- [ ] T002 [P] [us1] bar''"
  let ?l2 = "str ''- [ ] T003 [P] [US1] Build core''"
  have h1: "?p \<noteq> []" by (simp add: str_def)
  have h2: "files ?f ?p = Some tag_doc" by (simp add: fs0_def)
  have h3: "readable ?f ?p" by (simp add: fs0_def)
  have s0: "split_nl tag_doc = [] @ ?l0 # [?l1, ?l2]" by (simp add: tag_doc_lines)
  have s1: "split_nl tag_doc = [?l0] @ ?l1 # [?l2]" by (simp add: tag_doc_lines)
  have s2: "split_nl tag_doc = [?l0, ?l1] @ ?l2 # []" by (simp add: tag_doc_lines)
  have n: "length (filter is_task_line (split_nl tag_doc)) = 3"
    "length (filter is_task_line []) = 0" "length (filter is_task_line [?l0]) = 1"
    "length (filter is_task_line [?l0, ?l1]) = 2"
    by (simp_all add: tag_doc_lines tag_doc_task_lines)
  have ids: "line_id ?l0 = str ''T001''" "line_id ?l1 = str ''T002''" "line_id ?l2 = str ''T003''"
    by code_simp+
  have st2: "line_story ?l2 = Some (str ''US1'')" by code_simp
  have c: "str '' '' \<noteq> []" "list_all is_ws (str '' '')" "is_box (cu_of CHR '' '')"
    "str ''001'' \<noteq> []" "list_all is_digit (str ''001'')"
    "str ''002'' \<noteq> []" "list_all is_digit (str ''002'')"
    "cu_of CHR '']'' \<notin> set (str ''AUTH'')" "\<not> is_story_tag (str ''AUTH'')" "str ''AUTH'' \<noteq> str ''P''"
    "cu_of CHR '']'' \<notin> set (str ''us1'')" "\<not> is_story_tag (str ''us1'')" "str '' '' @ str ''[P]'' \<noteq> []"
    by code_simp+
  have p: "\<exists>w3. w3 \<noteq> [] \<and> list_all is_ws w3 \<and> str '' '' @ str ''[P]'' = w3 @ str ''[P]''"
    using c(1,2) by blast
  have sh0: "?l0 = cu_of CHR ''-'' # str '' '' @ cu_of CHR ''['' # cu_of CHR '' '' # cu_of CHR '']'' # str '' ''
       @ cu_of CHR ''T'' # str ''001'' @ [] @ str '' '' @ cu_of CHR ''['' # str ''AUTH'' @ cu_of CHR '']'' # str '' foo''"
    by (simp add: str_def)
  have sh1: "?l1 = cu_of CHR ''-'' # str '' '' @ cu_of CHR ''['' # cu_of CHR '' '' # cu_of CHR '']'' # str '' ''
       @ cu_of CHR ''T'' # str ''002'' @ (str '' '' @ str ''[P]'') @ str '' '' @ cu_of CHR ''['' # str ''us1'' @ cu_of CHR '']'' # str '' bar''"
    by (simp add: str_def)
  note T0 = parseTasksMd_story_tag[OF h1 h2 h3 s0 tag_doc_task_lines(1), unfolded n ids]
  note T1 = parseTasksMd_story_tag[OF h1 h2 h3 s1 tag_doc_task_lines(2), unfolded n ids]
  note T2 = parseTasksMd_story_tag[OF h1 h2 h3 s2 tag_doc_task_lines(3), unfolded n ids st2]
  from T0 obtain ts f' where
    r: "parseTasksMd ?f ?p = (Inr ts, f')" and len: "length ts = 3"
    and i0: "task_id (ts ! 0) = str ''T001''"
    and o0: "\<forall>w1 b w2 ds popt w tag rest.
          ?l0 = cu_of CHR ''-'' # w1 @ cu_of CHR ''['' # b # cu_of CHR '']'' # w2 @ cu_of CHR ''T'' # ds
                   @ popt @ w @ cu_of CHR ''['' # tag @ cu_of CHR '']'' # rest
          \<and> w1 \<noteq> [] \<and> list_all is_ws w1 \<and> is_box b \<and> w2 \<noteq> [] \<and> list_all is_ws w2
          \<and> ds \<noteq> [] \<and> list_all is_digit ds
          \<and> (popt = [] \<or> (\<exists>w3. w3 \<noteq> [] \<and> list_all is_ws w3 \<and> popt = w3 @ str ''[P]''))
          \<and> w \<noteq> [] \<and> list_all is_ws w
          \<and> cu_of CHR '']'' \<notin> set tag \<and> \<not> is_story_tag tag \<and> (popt = [] \<longrightarrow> tag \<noteq> str ''P'')
          \<longrightarrow> story (ts ! 0) = None \<and> (\<exists>r. description (ts ! 0) = cu_of CHR ''['' # tag @ cu_of CHR '']'' # r)"
    by (elim exE conjE) blast
  from T1 obtain ts1 f1 where
    r1: "parseTasksMd ?f ?p = (Inr ts1, f1)"
    and i1': "task_id (ts1 ! 1) = str ''T002''"
    and o1': "\<forall>w1 b w2 ds popt w tag rest.
          ?l1 = cu_of CHR ''-'' # w1 @ cu_of CHR ''['' # b # cu_of CHR '']'' # w2 @ cu_of CHR ''T'' # ds
                   @ popt @ w @ cu_of CHR ''['' # tag @ cu_of CHR '']'' # rest
          \<and> w1 \<noteq> [] \<and> list_all is_ws w1 \<and> is_box b \<and> w2 \<noteq> [] \<and> list_all is_ws w2
          \<and> ds \<noteq> [] \<and> list_all is_digit ds
          \<and> (popt = [] \<or> (\<exists>w3. w3 \<noteq> [] \<and> list_all is_ws w3 \<and> popt = w3 @ str ''[P]''))
          \<and> w \<noteq> [] \<and> list_all is_ws w
          \<and> cu_of CHR '']'' \<notin> set tag \<and> \<not> is_story_tag tag \<and> (popt = [] \<longrightarrow> tag \<noteq> str ''P'')
          \<longrightarrow> story (ts1 ! 1) = None \<and> (\<exists>r. description (ts1 ! 1) = cu_of CHR ''['' # tag @ cu_of CHR '']'' # r)"
    by (elim exE conjE) blast
  from r r1 have e1: "ts1 = ts" by simp
  note i1 = i1'[unfolded e1] and o1 = o1'[unfolded e1]
  from T2 obtain ts2 f2 where
    r2: "parseTasksMd ?f ?p = (Inr ts2, f2)"
    and i2': "task_id (ts2 ! 2) = str ''T003''" and t2': "story (ts2 ! 2) = Some (str ''US1'')"
    and o2': "\<forall>s. story (ts2 ! 2) = Some s \<longrightarrow>
       (\<exists>w1 b w2 ds popt w4 us w5 d.
          ?l2 = cu_of CHR ''-'' # w1 @ cu_of CHR ''['' # b # cu_of CHR '']'' # w2 @ cu_of CHR ''T'' # ds
                   @ popt @ w4 @ cu_of CHR ''['' # s @ cu_of CHR '']'' # w5 @ d
          \<and> s = str ''US'' @ us \<and> us \<noteq> [] \<and> list_all is_digit us
          \<and> w1 \<noteq> [] \<and> list_all is_ws w1 \<and> is_box b \<and> w2 \<noteq> [] \<and> list_all is_ws w2
          \<and> ds \<noteq> [] \<and> list_all is_digit ds \<and> task_id (ts2 ! 2) = cu_of CHR ''T'' # ds
          \<and> (popt = [] \<or> (\<exists>w3. w3 \<noteq> [] \<and> list_all is_ws w3 \<and> popt = w3 @ str ''[P]''))
          \<and> w4 \<noteq> [] \<and> list_all is_ws w4 \<and> w5 \<noteq> [] \<and> list_all is_ws w5
          \<and> d \<noteq> [] \<and> list_all is_dot d)"
    by (elim exE conjE) blast
  from r r2 have e2: "ts2 = ts" by simp
  note i2 = i2'[unfolded e2] and t2 = t2'[unfolded e2]
  from o2'[unfolded e2, rule_format, OF t2] have
    o2: "\<exists>us. str ''US1'' = str ''US'' @ us \<and> us \<noteq> [] \<and> list_all is_digit us" by blast
  from o0[rule_format, of "str '' ''" "cu_of CHR '' ''" "str '' ''" "str ''001''" "[]" "str '' ''" "str ''AUTH''" "str '' foo''"]
    sh0 c
  have "story (ts ! 0) = None \<and> (\<exists>r. description (ts ! 0) = cu_of CHR ''['' # str ''AUTH'' @ cu_of CHR '']'' # r)"
    by blast
  then have a0: "story (ts ! 0) = None" "\<exists>r. description (ts ! 0) = str ''[AUTH]'' @ r" by (simp_all add: str_def)
  from o1[rule_format, of "str '' ''" "cu_of CHR '' ''" "str '' ''" "str ''002''" "str '' '' @ str ''[P]''" "str '' ''" "str ''us1''" "str '' bar''"]
    sh1 c p
  have "story (ts ! 1) = None \<and> (\<exists>r. description (ts ! 1) = cu_of CHR ''['' # str ''us1'' @ cu_of CHR '']'' # r)"
    by blast
  then have a1: "story (ts ! 1) = None" "\<exists>r. description (ts ! 1) = str ''[us1]'' @ r" by (simp_all add: str_def)
  from o2 obtain us where "str ''US1'' = str ''US'' @ us" "us \<noteq> []" "list_all is_digit us" by blast
  with t2 have a2: "\<exists>us. story (ts ! 2) = Some (str ''US'' @ us) \<and> us \<noteq> [] \<and> list_all is_digit us" by metis
  from r len i0 a0 i1 a1 i2 a2 show ?thesis by blast
qed

section \<open>The id of a line, read from the format\<close>

lemma run_split:
  assumes "list_all p w" "t = [] \<or> \<not> p (hd t)"
  shows "takeWhile p (w @ t) = w" "dropWhile p (w @ t) = t"
proof -
  from assms(2) have t: "takeWhile p t = []" "dropWhile p t = t" by (cases t; simp)+
  from assms(1) show "takeWhile p (w @ t) = w" by (induction w) (simp_all add: t)
  from assms(1) show "dropWhile p (w @ t) = t" by (induction w) (simp_all add: t)
qed

lemma run_after: "dropWhile p s = [] \<or> \<not> p (hd (dropWhile p s))"
  by (metis hd_dropWhile)

lemma spec_prefix_iff:
  "spec_prefix line = Some (pre, b, mid, tok, rest) \<longleftrightarrow>
     (\<exists>w1 w2 ds. line = cu_of CHR ''-'' # w1 @ cu_of CHR ''['' # b # cu_of CHR '']'' # w2 @ cu_of CHR ''T'' # ds @ rest
        \<and> pre = cu_of CHR ''-'' # w1 @ [cu_of CHR ''['']
        \<and> mid = cu_of CHR '']'' # w2 \<and> tok = cu_of CHR ''T'' # ds
        \<and> w1 \<noteq> [] \<and> list_all is_ws w1 \<and> is_box b \<and> w2 \<noteq> [] \<and> list_all is_ws w2
        \<and> ds \<noteq> [] \<and> list_all is_digit ds \<and> (rest = [] \<or> \<not> is_digit (hd rest)))"
  (is "?L \<longleftrightarrow> ?R")
proof
  assume ?L
  then obtain d r1 where l: "line = d # r1" by (cases line) (auto simp: spec_prefix_def)
  from \<open>?L\<close> l obtain ob cb r3 where d1: "dropWhile is_ws r1 = ob # b # cb # r3"
    by (auto simp: spec_prefix_def split: list.splits if_splits)
  from \<open>?L\<close> l d1 obtain t r5 where d2: "dropWhile is_ws r3 = t # r5"
    by (auto simp: spec_prefix_def split: list.splits if_splits)
  from \<open>?L\<close> l d1 d2 have c: "d = cu_of CHR ''-''" "takeWhile is_ws r1 \<noteq> []" "ob = cu_of CHR ''[''"
    "is_box b" "cb = cu_of CHR '']''" "takeWhile is_ws r3 \<noteq> []" "t = cu_of CHR ''T''"
    "takeWhile is_digit r5 \<noteq> []"
    and r: "pre = d # takeWhile is_ws r1 @ [ob]" "mid = cb # takeWhile is_ws r3"
      "tok = t # takeWhile is_digit r5" "rest = dropWhile is_digit r5"
    by (auto simp: spec_prefix_def split: if_splits)
  have r1: "r1 = takeWhile is_ws r1 @ ob # b # cb # r3" using d1 by (metis takeWhile_dropWhile_id)
  have r3: "r3 = takeWhile is_ws r3 @ t # r5" using d2 by (metis takeWhile_dropWhile_id)
  have r5: "r5 = takeWhile is_digit r5 @ rest" using r(4) by simp
  have line: "line = cu_of CHR ''-'' # takeWhile is_ws r1 @ cu_of CHR ''['' # b # cu_of CHR '']'' #
      takeWhile is_ws r3 @ cu_of CHR ''T'' # takeWhile is_digit r5 @ rest"
    using l c r1 r3 r5 by metis
  have a1: "list_all is_ws (takeWhile is_ws r1)" "list_all is_ws (takeWhile is_ws r3)"
    "list_all is_digit (takeWhile is_digit r5)"
    by (auto simp: list_all_iff dest: set_takeWhileD)
  have e: "rest = [] \<or> \<not> is_digit (hd rest)" unfolding r(4) by (rule run_after)
  show ?R
    apply (rule exI[of _ "takeWhile is_ws r1"], rule exI[of _ "takeWhile is_ws r3"],
           rule exI[of _ "takeWhile is_digit r5"])
    using line c r a1 e by simp
next
  assume ?R
  then obtain w1 w2 ds where
    line: "line = cu_of CHR ''-'' # w1 @ cu_of CHR ''['' # b # cu_of CHR '']'' # w2 @ cu_of CHR ''T'' # ds @ rest"
    and r: "pre = cu_of CHR ''-'' # w1 @ [cu_of CHR ''['']" "mid = cu_of CHR '']'' # w2"
      "tok = cu_of CHR ''T'' # ds"
    and c: "w1 \<noteq> []" "list_all is_ws w1" "is_box b" "w2 \<noteq> []" "list_all is_ws w2"
      "ds \<noteq> []" "list_all is_digit ds" "rest = [] \<or> \<not> is_digit (hd rest)"
    by blast
  have s1: "takeWhile is_ws (w1 @ cu_of CHR ''['' # b # cu_of CHR '']'' # w2 @ cu_of CHR ''T'' # ds @ rest) = w1"
    "dropWhile is_ws (w1 @ cu_of CHR ''['' # b # cu_of CHR '']'' # w2 @ cu_of CHR ''T'' # ds @ rest)
       = cu_of CHR ''['' # b # cu_of CHR '']'' # w2 @ cu_of CHR ''T'' # ds @ rest"
    by (rule run_split[OF c(2)]; simp add: not_ws_chars)+
  have s2: "takeWhile is_ws (w2 @ cu_of CHR ''T'' # ds @ rest) = w2"
    "dropWhile is_ws (w2 @ cu_of CHR ''T'' # ds @ rest) = cu_of CHR ''T'' # ds @ rest"
    by (rule run_split[OF c(5)]; simp add: not_ws_chars)+
  have s3: "takeWhile is_digit (ds @ rest) = ds" "dropWhile is_digit (ds @ rest) = rest"
    by (rule run_split[OF c(7,8)])+
  show ?L
    unfolding spec_prefix_def line using c r by (simp add: s1 s2 s3)
qed

lemma spec_prefix_line:
  assumes "spec_prefix line = Some (pre, b, mid, tok, rest)"
  shows "line = pre @ b # mid @ tok @ rest" "box_prefix pre" "is_box b"
  using assms unfolding spec_prefix_iff by (auto simp: box_prefix_def)

text \<open>The greedy \<open>p+\<close> tries the whole run first.\<close>

lemma plus_rests_hd:
  assumes "list_all p w" "w \<noteq> []" "t = [] \<or> \<not> p (hd t)"
  shows "\<exists>more. plus_rests p (w @ t) = t # more"
  using assms(1,2)
proof (induction w)
  case Nil then show ?case by simp
next
  case (Cons x w)
  from assms(3) have t: "plus_rests p t = []" by (cases t) auto
  show ?case
  proof (cases "w = []")
    case True with Cons.prems t show ?thesis by simp
  next
    case False
    with Cons obtain more where "plus_rests p (w @ t) = t # more" by auto
    with Cons.prems show ?thesis by simp
  qed
qed

lemma ms_rest_eol:
  "ms n (seq [Grp i (Plus is_dot), Eol]) (rest, c) =
     (if rest \<noteq> [] \<and> list_all is_dot rest then [([], c(i \<mapsto> rest))] else [])"
proof (cases "list_all is_dot rest")
  case True
  let ?g = "\<lambda>r. ms n Eol (r, c(i \<mapsto> take (length rest - length r) rest))"
  have "ms n (seq [Grp i (Plus is_dot), Eol]) (rest, c) = concat (map ?g (plus_rests is_dot (rest @ [])))"
    by (simp add: seq.simps comp_def)
  also have "\<dots> = (if rest = [] then [] else ?g [])"
    by (rule concat_plus_det[OF True]) simp_all
  finally show ?thesis using True by simp
next
  case False
  have "ms n (seq [Grp i (Plus is_dot), Eol]) (rest, c) = []"
  proof (rule ccontr)
    assume "ms n (seq [Grp i (Plus is_dot), Eol]) (rest, c) \<noteq> []"
    then obtain s' c' where "(s', c') \<in> set (ms n (seq [Grp i (Plus is_dot), Eol]) (rest, c))"
      by (cases "ms n (seq [Grp i (Plus is_dot), Eol]) (rest, c)") auto
    then have "list_all is_dot rest" unfolding seq.simps in_ms by clarsimp
    with False show False by simp
  qed
  with False show ?thesis by simp
qed

lemma ms_grp_prefix:
  assumes "w1 \<noteq> []" "list_all is_ws w1"
  shows "ms n (seq (Grp i (seq [lit CHR ''-'', Plus is_ws, lit CHR ''['']) # rs))
            (cu_of CHR ''-'' # w1 @ cu_of CHR ''['' # t, c)
       = ms n (seq rs) (t, c(i \<mapsto> cu_of CHR ''-'' # w1 @ [cu_of CHR ''['']))"
proof -
  have rej: "\<forall>x xs c. is_ws x \<longrightarrow> ms n (seq [lit CHR ''['']) (x # xs, c) = []"
    by (auto simp: ms_seq_lit dest: ws_not_bracket)
  have "ms n (seq [lit CHR ''-'', Plus is_ws, lit CHR ''['']) (cu_of CHR ''-'' # w1 @ cu_of CHR ''['' # t, c)
      = ms n (seq [Plus is_ws, lit CHR ''['']) (w1 @ cu_of CHR ''['' # t, c)"
    by (simp add: ms_seq_lit)
  also have "\<dots> = ms n (seq [lit CHR ''['']) (cu_of CHR ''['' # t, c)"
    by (rule ms_seq_plus_det[OF assms(2,1) _ rej]) (simp add: not_ws_chars)
  also have "\<dots> = [(t, c)]" by (simp add: ms_seq_lit ms_seq_Nil)
  finally have "ms n (seq [lit CHR ''-'', Plus is_ws, lit CHR ''['']) (cu_of CHR ''-'' # w1 @ cu_of CHR ''['' # t, c)
      = [(t, c)]" .
  then show ?thesis by (simp add: ms_seq_Cons)
qed

lemma ms_grp_mid:
  assumes "w2 \<noteq> []" "list_all is_ws w2"
  shows "ms n (seq (Grp i (seq [lit CHR '']'', Plus is_ws]) # Grp k (seq [lit CHR ''T'', Plus is_digit]) # rs))
            (cu_of CHR '']'' # w2 @ cu_of CHR ''T'' # t, c)
       = ms n (seq (Grp k (seq [lit CHR ''T'', Plus is_digit]) # rs))
            (cu_of CHR ''T'' # t, c(i \<mapsto> cu_of CHR '']'' # w2))"
proof -
  let ?K = "Grp k (seq [lit CHR ''T'', Plus is_digit]) # rs"
  let ?s = "cu_of CHR '']'' # w2 @ cu_of CHR ''T'' # t"
  let ?g = "\<lambda>r. ms n (seq ?K) (r, c(i \<mapsto> take (length ?s - length r) ?s))"
  have "ms n (seq [lit CHR '']'', Plus is_ws]) (?s, c)
      = map (\<lambda>r. (r, c)) (plus_rests is_ws (w2 @ cu_of CHR ''T'' # t))"
    by (simp add: seq.simps lit_def)
  then have "ms n (seq (Grp i (seq [lit CHR '']'', Plus is_ws]) # ?K)) (?s, c)
      = concat (map ?g (plus_rests is_ws (w2 @ cu_of CHR ''T'' # t)))"
    by (simp add: ms_seq_Cons comp_def)
  also have "\<dots> = ?g (cu_of CHR ''T'' # t)"
    using concat_plus_det[OF assms(2), of "cu_of CHR ''T'' # t" ?g] assms(1)
    by (simp add: not_ws_chars grp_T_reject_ws)
  finally show ?thesis by simp
qed

lemma ms_grp_id_first:
  assumes "ds \<noteq> []" "list_all is_digit ds" "rest = [] \<or> \<not> is_digit (hd rest)"
    "rest \<noteq> []" "list_all is_dot rest"
  shows "\<exists>more. ms n (seq [Grp i (seq [lit CHR ''T'', Plus is_digit]), Grp k (Plus is_dot), Eol])
            (cu_of CHR ''T'' # ds @ rest, c)
       = ([], c(i \<mapsto> cu_of CHR ''T'' # ds, k \<mapsto> rest)) # more"
proof -
  let ?s = "cu_of CHR ''T'' # ds @ rest"
  let ?g = "\<lambda>r. ms n (seq [Grp k (Plus is_dot), Eol]) (r, c(i \<mapsto> take (length ?s - length r) ?s))"
  from plus_rests_hd[OF assms(2,1,3)] obtain more where
    m: "plus_rests is_digit (ds @ rest) = rest # more" by blast
  have "ms n (seq [Grp i (seq [lit CHR ''T'', Plus is_digit]), Grp k (Plus is_dot), Eol]) (?s, c)
      = concat (map ?g (plus_rests is_digit (ds @ rest)))"
    by (simp add: ms_seq_Cons[of n "Grp i (seq [lit CHR ''T'', Plus is_digit])"] seq.simps(2,3) lit_def comp_def)
  also have "\<dots> = ?g rest @ concat (map ?g more)" by (simp add: m)
  also have "?g rest = [([], c(i \<mapsto> cu_of CHR ''T'' # ds, k \<mapsto> rest))]"
    using assms(4,5) by (simp add: ms_rest_eol)
  finally show ?thesis by simp
qed

text \<open>On a line that goes on after its id, the pattern of \<open>markTaskComplete\<close> takes the five
  pieces as its groups.\<close>

lemma exec_mark_re_spec:
  assumes "spec_prefix line = Some (pre, b, mid, tok, rest)" "rest \<noteq> []" "list_all is_dot rest"
  shows "\<exists>m. exec mark_re line = Some m \<and> m 1 = Some pre \<and> m 2 = Some [b] \<and> m 3 = Some mid
     \<and> m 4 = Some tok \<and> m 5 = Some rest"
proof -
  from assms(1) obtain w1 w2 ds where
    line: "line = cu_of CHR ''-'' # w1 @ cu_of CHR ''['' # b # cu_of CHR '']'' # w2 @ cu_of CHR ''T'' # ds @ rest"
    and r: "pre = cu_of CHR ''-'' # w1 @ [cu_of CHR ''['']" "mid = cu_of CHR '']'' # w2"
      "tok = cu_of CHR ''T'' # ds"
    and c: "w1 \<noteq> []" "list_all is_ws w1" "is_box b" "w2 \<noteq> []" "list_all is_ws w2"
      "ds \<noteq> []" "list_all is_digit ds" "rest = [] \<or> \<not> is_digit (hd rest)"
    unfolding spec_prefix_iff by blast
  let ?n = "length line"
  let ?G4 = "Grp 4 (seq [lit CHR ''T'', Plus is_digit])"
  let ?K = "[?G4, Grp 5 (Plus is_dot), Eol]"
  let ?c3 = "[1 \<mapsto> pre, 2 \<mapsto> [b], 3 \<mapsto> mid]"
  have e: "mark_re = Cat Bol (seq (Grp 1 (seq [lit CHR ''-'', Plus is_ws, lit CHR ''['']) #
     Grp 2 (Cls is_box) # Grp 3 (seq [lit CHR '']'', Plus is_ws]) # ?K))"
    by (simp add: mark_re_def seq.simps)
  have "ms ?n (seq (Grp 1 (seq [lit CHR ''-'', Plus is_ws, lit CHR ''['']) #
     Grp 2 (Cls is_box) # Grp 3 (seq [lit CHR '']'', Plus is_ws]) # ?K)) (line, Map.empty)
     = ms ?n (seq (Grp 2 (Cls is_box) # Grp 3 (seq [lit CHR '']'', Plus is_ws]) # ?K))
         (b # cu_of CHR '']'' # w2 @ cu_of CHR ''T'' # ds @ rest, [1 \<mapsto> pre])"
    unfolding line r by (rule ms_grp_prefix[OF c(1,2)])
  also have "\<dots> = ms ?n (seq (Grp 3 (seq [lit CHR '']'', Plus is_ws]) # ?K))
         (cu_of CHR '']'' # w2 @ cu_of CHR ''T'' # ds @ rest, [1 \<mapsto> pre, 2 \<mapsto> [b]])"
    using c(3) by (simp add: ms_seq_grp_cls)
  also have "\<dots> = ms ?n (seq ?K) (cu_of CHR ''T'' # ds @ rest, ?c3)"
    unfolding r by (rule ms_grp_mid[OF c(4,5)])
  finally have 1: "ms ?n (seq (Grp 1 (seq [lit CHR ''-'', Plus is_ws, lit CHR ''['']) #
     Grp 2 (Cls is_box) # Grp 3 (seq [lit CHR '']'', Plus is_ws]) # ?K)) (line, Map.empty)
     = ms ?n (seq ?K) (cu_of CHR ''T'' # ds @ rest, ?c3)" .
  from ms_grp_id_first[OF c(6,7,8) assms(2,3), of ?n 4 5 ?c3] obtain more where
    2: "ms ?n (seq ?K) (cu_of CHR ''T'' # ds @ rest, ?c3)
         = ([], ?c3(4 \<mapsto> cu_of CHR ''T'' # ds, 5 \<mapsto> rest)) # more" by blast
  have "exec mark_re line = Some (?c3(4 \<mapsto> cu_of CHR ''T'' # ds, 5 \<mapsto> rest))"
    unfolding e exec_anchored 1 2 by simp
  then show ?thesis using r by simp
qed

text \<open>A line the pattern matches has the prefix, and no line terminator after it.\<close>

lemma exec_mark_re_prefix:
  assumes "exec mark_re line = Some m"
  shows "\<exists>pre b mid tok rest. spec_prefix line = Some (pre, b, mid, tok, rest) \<and> list_all is_dot rest"
proof -
  from mark_shape[OF assms] obtain w1 b w2 ds rest where
    l: "line = cu_of CHR ''-'' # w1 @ cu_of CHR ''['' # b # cu_of CHR '']'' # w2 @ cu_of CHR ''T'' # ds @ rest"
    and c: "w1 \<noteq> []" "list_all is_ws w1" "is_box b" "w2 \<noteq> []" "list_all is_ws w2"
      "ds \<noteq> []" "list_all is_digit ds" "list_all is_dot rest"
    by blast
  let ?ds = "ds @ takeWhile is_digit rest"
  let ?rest = "dropWhile is_digit rest"
  have 1: "line = cu_of CHR ''-'' # w1 @ cu_of CHR ''['' # b # cu_of CHR '']'' # w2 @ cu_of CHR ''T'' # ?ds @ ?rest"
    using l by simp
  have 2: "list_all is_digit ?ds" using c(7) by (auto simp: list_all_iff dest: set_takeWhileD)
  have 3: "?rest = [] \<or> \<not> is_digit (hd ?rest)" by (rule run_after)
  have 4: "list_all is_dot ?rest" using c(8) by (auto simp: list_all_iff dest: set_dropWhileD)
  have "spec_prefix line = Some (cu_of CHR ''-'' # w1 @ [cu_of CHR ''[''], b, cu_of CHR '']'' # w2,
      cu_of CHR ''T'' # ?ds, ?rest)"
    unfolding spec_prefix_iff using 1 2 3 c by blast
  with 4 show ?thesis by blast
qed

text \<open>The callback of \<open>markTaskComplete\<close> on a line that neither ends with its id nor has a
  line terminator after it: the line with the target id gets \<open>X\<close> for its bracket character,
  any other line is returned as it is.\<close>

lemma mark_line_spec:
  assumes "\<not> ends_with_id line" "\<not> breaks_after_id line"
  shows "if spec_line_id line = Some taskId
         then (\<exists>pre b post. line = pre @ b # post \<and> box_prefix pre \<and> is_box b
                 \<and> mark_line taskId line = pre @ cu_of CHR ''X'' # post)
         else mark_line taskId line = line"
proof (cases "spec_prefix line")
  case None
  then have "exec mark_re line = None" using exec_mark_re_prefix[of line] by (cases "exec mark_re line") auto
  with None show ?thesis by (simp add: spec_line_id_def mark_line_def)
next
  case (Some q)
  then obtain pre b mid tok rest where q: "spec_prefix line = Some (pre, b, mid, tok, rest)"
    by (cases q) auto
  with assms have ne: "rest \<noteq> []" and dot: "list_all is_dot rest"
    by (simp_all add: ends_with_id_def breaks_after_id_def)
  from exec_mark_re_spec[OF q ne dot] obtain m where
    m: "exec mark_re line = Some m" "m 1 = Some pre" "m 2 = Some [b]" "m 3 = Some mid"
      "m 4 = Some tok" "m 5 = Some rest" by blast
  have id: "spec_line_id line = Some tok" using q by (simp add: spec_line_id_def)
  show ?thesis
  proof (cases "tok = taskId")
    case True
    have "mark_line taskId line = pre @ cu_of CHR ''X'' # (mid @ tok @ rest)"
      using m True by (simp add: mark_line_def tmpl_def str_def)
    with spec_prefix_line[OF q] id True show ?thesis by auto
  next
    case False
    with m id show ?thesis by (simp add: mark_line_def)
  qed
qed

lemma mark_lines_spec:
  assumes "\<forall>l\<in>set ls. \<not> ends_with_id l \<and> \<not> breaks_after_id l \<and> spec_line_id l \<noteq> Some taskId"
  shows "map (mark_line taskId) ls = ls"
proof (rule map_idI)
  fix l assume "l \<in> set ls"
  with assms have "\<not> ends_with_id l" "\<not> breaks_after_id l" "spec_line_id l \<noteq> Some taskId" by auto
  with mark_line_spec[of l taskId] show "mark_line taskId l = l" by simp
qed

text \<open>
  C1 fails as stated: the callback of \<open>lines.map\<close> runs on every line, so with the id
  \<open>T001\<close> on two lines both are marked, the later duplicate too.
\<close>

theorem markTaskComplete_marks_duplicates:
  "spec_line_id (str ''- [ ] T001 a'') = Some (str ''T001'')
   \<and> spec_line_id (str ''- [ ] T001 b'') = Some (str ''T001'')
   \<and> markTaskComplete (fs0 (str ''tasks.md'') (str ''- [ ] T001 a\<newline>- [ ] T001 b'')) (str ''tasks.md'') (str ''T001'')
     = (Inr (), \<lparr>files = [str ''tasks.md'' \<mapsto> str ''- [X] T001 a\<newline>- [X] T001 b''],
          readable = (\<lambda>_. True), writable = (\<lambda>_. True),
          trace = [OpRead (str ''tasks.md''), OpWrite (str ''tasks.md'')]\<rparr>)
   \<and> str ''- [X] T001 b'' \<noteq> str ''- [ ] T001 b''"
proof -
  have 1: "spec_line_id (str ''- [ ] T001 a'') = Some (str ''T001'')" by code_simp
  have 2: "spec_line_id (str ''- [ ] T001 b'') = Some (str ''T001'')" by code_simp
  have h1: "str ''tasks.md'' \<noteq> []" by (simp add: str_def)
  have h2: "trim (str ''T001'') \<noteq> []" by code_simp
  have h0: "str ''T001'' \<noteq> []" by (simp add: str_def)
  have 3: "join_nl (map (mark_line (str ''T001'')) (split_nl (str ''- [ ] T001 a\<newline>- [ ] T001 b'')))
     = str ''- [X] T001 a\<newline>- [X] T001 b''" by code_simp
  have 4: "markTaskComplete (fs0 (str ''tasks.md'') (str ''- [ ] T001 a\<newline>- [ ] T001 b'')) (str ''tasks.md'') (str ''T001'')
     = (Inr (), \<lparr>files = [str ''tasks.md'' \<mapsto> str ''- [X] T001 a\<newline>- [X] T001 b''],
          readable = (\<lambda>_. True), writable = (\<lambda>_. True),
          trace = [OpRead (str ''tasks.md''), OpWrite (str ''tasks.md'')]\<rparr>)"
    using h0 h1 h2 by (simp add: markTaskComplete_def readFile_def writeFile_def fs0_def 3 Let_def)
  have 5: "str ''- [X] T001 b'' \<noteq> str ''- [ ] T001 b''" by code_simp
  from 1 2 4 5 show ?thesis by simp
qed

text \<open>
  C1, amended. When the file can be read and written, \<open>markTaskComplete\<close> succeeds and keeps
  the number of lines. Of the lines that go on after their id and have no line terminator
  there: on every line whose id is the target (the first and each later duplicate alike) the
  bracket character is replaced by \<open>X\<close> and nothing else, and every line with another id or
  without the prefix of a task line is written back as it is. When all lines are of this kind
  and none has the target id, the document written back is the document read. The id of a
  line is read from the format here (\<open>spec_line_id\<close>), not through the pattern of the code;
  about a line that ends with its id, or has a line terminator after it, nothing is said.
\<close>

theorem markTaskComplete_marks_every_match:
  assumes "filePath \<noteq> []" "trim taskId \<noteq> []" "files f filePath = Some content"
    "readable f filePath" "writable f filePath"
  shows "\<exists>f' content'. markTaskComplete f filePath taskId = (Inr (), f')
     \<and> files f' filePath = Some content'
     \<and> length (split_nl content') = length (split_nl content)
     \<and> (\<forall>j < length (split_nl content).
          \<not> ends_with_id (split_nl content ! j) \<and> \<not> breaks_after_id (split_nl content ! j) \<longrightarrow>
          (if spec_line_id (split_nl content ! j) = Some taskId
           then (\<exists>pre b post. split_nl content ! j = pre @ b # post \<and> box_prefix pre \<and> is_box b
                   \<and> split_nl content' ! j = pre @ cu_of CHR ''X'' # post)
           else split_nl content' ! j = split_nl content ! j))
     \<and> ((\<forall>l \<in> set (split_nl content).
            \<not> ends_with_id l \<and> \<not> breaks_after_id l \<and> spec_line_id l \<noteq> Some taskId)
          \<longrightarrow> content' = content)"
proof -
  let ?c' = "join_nl (map (mark_line taskId) (split_nl content))"
  let ?f' = "f\<lparr>trace := trace f @ [OpRead filePath, OpWrite filePath],
               files := (files f)(filePath \<mapsto> ?c')\<rparr>"
  note ok = markTaskComplete_ok[OF assms(1-5)]
  have l: "split_nl ?c' = map (mark_line taskId) (split_nl content)" by (rule split_marked)
  have a: "\<forall>j < length (split_nl content).
          \<not> ends_with_id (split_nl content ! j) \<and> \<not> breaks_after_id (split_nl content ! j) \<longrightarrow>
          (if spec_line_id (split_nl content ! j) = Some taskId
           then (\<exists>pre b post. split_nl content ! j = pre @ b # post \<and> box_prefix pre \<and> is_box b
                   \<and> split_nl ?c' ! j = pre @ cu_of CHR ''X'' # post)
           else split_nl ?c' ! j = split_nl content ! j)"
  proof (intro allI impI)
    fix j assume j: "j < length (split_nl content)"
      and eb: "\<not> ends_with_id (split_nl content ! j) \<and> \<not> breaks_after_id (split_nl content ! j)"
    then have e: "\<not> ends_with_id (split_nl content ! j)" and b: "\<not> breaks_after_id (split_nl content ! j)"
      by simp_all
    have n: "split_nl ?c' ! j = mark_line taskId (split_nl content ! j)" using j by (simp add: l)
    show "if spec_line_id (split_nl content ! j) = Some taskId
           then (\<exists>pre b post. split_nl content ! j = pre @ b # post \<and> box_prefix pre \<and> is_box b
                   \<and> split_nl ?c' ! j = pre @ cu_of CHR ''X'' # post)
           else split_nl ?c' ! j = split_nl content ! j"
      unfolding n by (rule mark_line_spec[OF e b])
  qed
  have n: "(\<forall>l \<in> set (split_nl content).
            \<not> ends_with_id l \<and> \<not> breaks_after_id l \<and> spec_line_id l \<noteq> Some taskId)
          \<longrightarrow> ?c' = content"
    by (auto simp: mark_lines_spec join_split)
  have len: "length (split_nl ?c') = length (split_nl content)" by (simp add: l)
  have fl: "files ?f' filePath = Some ?c'" by simp
  from ok fl len a n show ?thesis by blast
qed

theorem markTaskComplete_marks_every_match_witness:
  "(\<exists>f' content'. markTaskComplete (fs0 (str ''tasks.md'') dup_doc) (str ''tasks.md'') (str ''T001'') = (Inr (), f')
     \<and> files f' (str ''tasks.md'') = Some content'
     \<and> length (split_nl content') = 2
     \<and> (\<exists>pre b post. str ''- [ ] T001 a'' = pre @ b # post \<and> box_prefix pre \<and> is_box b
                  \<and> split_nl content' ! 0 = pre @ cu_of CHR ''X'' # post)
     \<and> (\<exists>pre b post. str ''- [ ] T001 b'' = pre @ b # post \<and> box_prefix pre \<and> is_box b
                  \<and> split_nl content' ! 1 = pre @ cu_of CHR ''X'' # post))
   \<and> (\<exists>f'. markTaskComplete (fs0 (str ''tasks.md'') dup_doc) (str ''tasks.md'') (str ''T002'') = (Inr (), f')
     \<and> files f' (str ''tasks.md'') = Some dup_doc)"
proof -
  have h1: "str ''tasks.md'' \<noteq> []" by (simp add: str_def)
  have h2: "trim (str ''T001'') \<noteq> []" by code_simp
  have h2': "trim (str ''T002'') \<noteq> []" by code_simp
  have h3: "files (fs0 (str ''tasks.md'') dup_doc) (str ''tasks.md'') = Some dup_doc" by (simp add: fs0_def)
  have h4: "readable (fs0 (str ''tasks.md'') dup_doc) (str ''tasks.md'')" by (simp add: fs0_def)
  have h5: "writable (fs0 (str ''tasks.md'') dup_doc) (str ''tasks.md'')" by (simp add: fs0_def)
  have e0: "\<not> ends_with_id (str ''- [ ] T001 a'')" "\<not> breaks_after_id (str ''- [ ] T001 a'')" by code_simp+
  have e1: "\<not> ends_with_id (str ''- [ ] T001 b'')" "\<not> breaks_after_id (str ''- [ ] T001 b'')" by code_simp+
  have t0: "spec_line_id (str ''- [ ] T001 a'') = Some (str ''T001'')" by code_simp
  have t1: "spec_line_id (str ''- [ ] T001 b'') = Some (str ''T001'')" by code_simp
  have ne: "str ''T001'' \<noteq> str ''T002''" by code_simp
  from markTaskComplete_marks_every_match[OF h1 h2 h3 h4 h5] obtain f' c' where
    r: "markTaskComplete (fs0 (str ''tasks.md'') dup_doc) (str ''tasks.md'') (str ''T001'') = (Inr (), f')"
      "files f' (str ''tasks.md'') = Some c'" "length (split_nl c') = length (split_nl dup_doc)"
    and o: "\<forall>j < length (split_nl dup_doc).
          \<not> ends_with_id (split_nl dup_doc ! j) \<and> \<not> breaks_after_id (split_nl dup_doc ! j) \<longrightarrow>
          (if spec_line_id (split_nl dup_doc ! j) = Some (str ''T001'')
           then (\<exists>pre b post. split_nl dup_doc ! j = pre @ b # post \<and> box_prefix pre \<and> is_box b
                   \<and> split_nl c' ! j = pre @ cu_of CHR ''X'' # post)
           else split_nl c' ! j = split_nl dup_doc ! j)"
    by blast
  have l: "length (split_nl c') = 2" using r(3) by (simp add: dup_doc_lines)
  have o0: "\<exists>pre b post. str ''- [ ] T001 a'' = pre @ b # post \<and> box_prefix pre \<and> is_box b
                  \<and> split_nl c' ! 0 = pre @ cu_of CHR ''X'' # post"
    using o[rule_format, of 0] t0 e0 by (simp add: dup_doc_lines)
  have o1: "\<exists>pre b post. str ''- [ ] T001 b'' = pre @ b # post \<and> box_prefix pre \<and> is_box b
                  \<and> split_nl c' ! 1 = pre @ cu_of CHR ''X'' # post"
    using o[rule_format, of 1] t1 e1 by (simp add: dup_doc_lines)
  have A: "\<exists>f' content'. markTaskComplete (fs0 (str ''tasks.md'') dup_doc) (str ''tasks.md'') (str ''T001'') = (Inr (), f')
     \<and> files f' (str ''tasks.md'') = Some content'
     \<and> length (split_nl content') = 2
     \<and> (\<exists>pre b post. str ''- [ ] T001 a'' = pre @ b # post \<and> box_prefix pre \<and> is_box b
                  \<and> split_nl content' ! 0 = pre @ cu_of CHR ''X'' # post)
     \<and> (\<exists>pre b post. str ''- [ ] T001 b'' = pre @ b # post \<and> box_prefix pre \<and> is_box b
                  \<and> split_nl content' ! 1 = pre @ cu_of CHR ''X'' # post)"
    using r(1,2) l o0 o1 by blast
  have none: "\<forall>l \<in> set (split_nl dup_doc).
      \<not> ends_with_id l \<and> \<not> breaks_after_id l \<and> spec_line_id l \<noteq> Some (str ''T002'')"
    using e0 e1 t0 t1 ne by (simp add: dup_doc_lines)
  from markTaskComplete_marks_every_match[OF h1 h2' h3 h4 h5] none obtain f2 where
    "markTaskComplete (fs0 (str ''tasks.md'') dup_doc) (str ''tasks.md'') (str ''T002'') = (Inr (), f2)"
    "files f2 (str ''tasks.md'') = Some dup_doc"
    by blast
  then have B: "\<exists>f'. markTaskComplete (fs0 (str ''tasks.md'') dup_doc) (str ''tasks.md'') (str ''T002'') = (Inr (), f')
     \<and> files f' (str ''tasks.md'') = Some dup_doc" by blast
  from A B show ?thesis by (rule conjI)
qed

text \<open>
  C3 fails on the code. In the checklist \<open>- [ ] T12\<close>, \<open>- [ ] T1 a\<close> one line has the id
  \<open>T1\<close>: the second. The first line has the id \<open>T12\<close>, is no task line for the parser and is
  not marked when the target is \<open>T12\<close>. With the target \<open>T1\<close>, \<open>markTaskComplete\<close> rewrites
  both lines: on the first line \<open>(T\d+)\<close> gives up its last digit to \<open>(.+)\<close>, so group 4 is
  \<open>T1\<close> there, against the comment \<open>Match task line with this ID\<close> of the callback.
\<close>

theorem markTaskComplete_marks_longer_id:
  "spec_line_id (str ''- [ ] T12'') = Some (str ''T12'')
   \<and> \<not> is_task_line (str ''- [ ] T12'')
   \<and> spec_line_id (str ''- [ ] T1 a'') = Some (str ''T1'')
   \<and> is_task_line (str ''- [ ] T1 a'') \<and> line_id (str ''- [ ] T1 a'') = str ''T1''
   \<and> markTaskComplete (fs0 (str ''tasks.md'') (str ''- [ ] T12\<newline>- [ ] T1 a'')) (str ''tasks.md'') (str ''T1'')
     = (Inr (), \<lparr>files = [str ''tasks.md'' \<mapsto> str ''- [X] T12\<newline>- [X] T1 a''],
          readable = (\<lambda>_. True), writable = (\<lambda>_. True),
          trace = [OpRead (str ''tasks.md''), OpWrite (str ''tasks.md'')]\<rparr>)
   \<and> str ''- [X] T12'' \<noteq> str ''- [ ] T12''
   \<and> markTaskComplete (fs0 (str ''tasks.md'') (str ''- [ ] T12\<newline>- [ ] T1 a'')) (str ''tasks.md'') (str ''T12'')
     = (Inr (), \<lparr>files = [str ''tasks.md'' \<mapsto> str ''- [ ] T12\<newline>- [ ] T1 a''],
          readable = (\<lambda>_. True), writable = (\<lambda>_. True),
          trace = [OpRead (str ''tasks.md''), OpWrite (str ''tasks.md'')]\<rparr>)"
proof -
  have 1: "spec_line_id (str ''- [ ] T12'') = Some (str ''T12'')" by code_simp
  have 2: "\<not> is_task_line (str ''- [ ] T12'')" by code_simp
  have 3: "spec_line_id (str ''- [ ] T1 a'') = Some (str ''T1'')" by code_simp
  have 4: "is_task_line (str ''- [ ] T1 a'')" "line_id (str ''- [ ] T1 a'') = str ''T1''" by code_simp+
  have h1: "str ''tasks.md'' \<noteq> []" by (simp add: str_def)
  have h2: "trim (str ''T1'') \<noteq> []" "trim (str ''T12'') \<noteq> []" by code_simp+
  have h0: "str ''T1'' \<noteq> []" "str ''T12'' \<noteq> []" by (simp_all add: str_def)
  have m1: "join_nl (map (mark_line (str ''T1'')) (split_nl (str ''- [ ] T12\<newline>- [ ] T1 a'')))
     = str ''- [X] T12\<newline>- [X] T1 a''" by code_simp
  have m2: "join_nl (map (mark_line (str ''T12'')) (split_nl (str ''- [ ] T12\<newline>- [ ] T1 a'')))
     = str ''- [ ] T12\<newline>- [ ] T1 a''" by code_simp
  have 5: "markTaskComplete (fs0 (str ''tasks.md'') (str ''- [ ] T12\<newline>- [ ] T1 a'')) (str ''tasks.md'') (str ''T1'')
     = (Inr (), \<lparr>files = [str ''tasks.md'' \<mapsto> str ''- [X] T12\<newline>- [X] T1 a''],
          readable = (\<lambda>_. True), writable = (\<lambda>_. True),
          trace = [OpRead (str ''tasks.md''), OpWrite (str ''tasks.md'')]\<rparr>)"
    using h0 h1 h2 by (simp add: markTaskComplete_def readFile_def writeFile_def fs0_def m1 Let_def)
  have 6: "str ''- [X] T12'' \<noteq> str ''- [ ] T12''" by code_simp
  have 7: "markTaskComplete (fs0 (str ''tasks.md'') (str ''- [ ] T12\<newline>- [ ] T1 a'')) (str ''tasks.md'') (str ''T12'')
     = (Inr (), \<lparr>files = [str ''tasks.md'' \<mapsto> str ''- [ ] T12\<newline>- [ ] T1 a''],
          readable = (\<lambda>_. True), writable = (\<lambda>_. True),
          trace = [OpRead (str ''tasks.md''), OpWrite (str ''tasks.md'')]\<rparr>)"
    using h0 h1 h2 by (simp add: markTaskComplete_def readFile_def writeFile_def fs0_def m2 Let_def)
  from 1 2 3 4 5 6 7 show ?thesis by simp
qed

section \<open>Strings as property names\<close>

lemma cu_of_unat: "unat (cu_of c) = of_char c"
proof -
  have "(of_char c :: nat) < 256" by (rule nat_of_char_less_256)
  also have "(256 :: nat) < 2 ^ LENGTH(16)" by simp
  finally have "(of_char c :: nat) < 2 ^ LENGTH(16)" .
  then show ?thesis unfolding cu_of_def by (rule of_nat_inverse[OF refl])
qed

lemma cu_of_inj: "cu_of a = cu_of b \<longleftrightarrow> a = b"
proof
  assume "cu_of a = cu_of b"
  then have "unat (cu_of a) = unat (cu_of b)" by (rule arg_cong)
  then have "(of_char a :: nat) = of_char b" unfolding cu_of_unat .
  then show "a = b" by simp
next
  assume "a = b" then show "cu_of a = cu_of b" by (rule arg_cong)
qed

lemma str_inj: "str a = str b \<longleftrightarrow> a = b"
proof (induction a arbitrary: b)
  case Nil show ?case by (cases b) (simp_all add: str_def)
next
  case (Cons x xs)
  show ?case
  proof (cases b)
    case Nil then show ?thesis by (simp add: str_def)
  next
    case (Cons y ys)
    with Cons.IH[of ys] show ?thesis by (simp add: str_def cu_of_inj)
  qed
qed


lemma key_neq:
  "str ''featureDir'' \<noteq> str ''stepStatus''" "str ''featureDir'' \<noteq> str ''currentStep''"
  "str ''stepStatus'' \<noteq> str ''currentStep''" "str ''currentStep'' \<noteq> str ''stepStatus''"
  by (simp_all add: str_inj)

section \<open>\<open>getWorkflowState\<close>\<close>

lemma getWorkflowState_missing:
  assumes "files f (path_join P dir STATE_FILE) = None"
  shows "getWorkflowState P f dir =
     (Inr JNull, f\<lparr>trace := trace f @ [OpAccess (path_join P dir STATE_FILE)]\<rparr>)"
  using assms by (simp add: getWorkflowState_def fileExists_def Let_def)

lemma getWorkflowState_unreadable:
  assumes "files f (path_join P dir STATE_FILE) = Some content" "\<not> readable f (path_join P dir STATE_FILE)"
  shows "getWorkflowState P f dir =
     (Inr JNull, f\<lparr>trace := trace f @ [OpAccess (path_join P dir STATE_FILE),
                                         OpRead (path_join P dir STATE_FILE)]\<rparr>)"
  using assms by (simp add: getWorkflowState_def fileExists_def readFile_def Let_def)

lemma getWorkflowState_stored:
  assumes "files f (path_join P dir STATE_FILE) = Some content" "readable f (path_join P dir STATE_FILE)"
  shows "getWorkflowState P f dir =
     (Inr (case json_parse P content of Throws \<Rightarrow> JNull | Value v \<Rightarrow> v),
      f\<lparr>trace := trace f @ [OpAccess (path_join P dir STATE_FILE),
                            OpRead (path_join P dir STATE_FILE)]\<rparr>)"
  using assms
  by (simp add: getWorkflowState_def fileExists_def readFile_def Let_def split: parsed.splits)

lemma getWorkflowState_never_throws: "\<exists>r f'. getWorkflowState P f dir = (Inr r, f')"
proof (cases "files f (path_join P dir STATE_FILE)")
  case None
  from getWorkflowState_missing[OF None] show ?thesis by blast
next
  case (Some content)
  show ?thesis
  proof (cases "readable f (path_join P dir STATE_FILE)")
    case True
    from getWorkflowState_stored[OF Some True] show ?thesis by blast
  next
    case False
    from getWorkflowState_unreadable[OF Some False] show ?thesis by blast
  qed
qed

text \<open>
  C7. \<open>getWorkflowState\<close> never returns an error; it returns \<open>null\<close> when the state file does
  not exist, and it returns \<open>null\<close> as well when the file exists and its content does not
  parse: the caller gets the same value in both cases.
\<close>

theorem getWorkflowState_absent:
  "(\<forall>e. fst (getWorkflowState P f dir) \<noteq> Inl e)
   \<and> (files f (path_join P dir STATE_FILE) = None \<longrightarrow> fst (getWorkflowState P f dir) = Inr JNull)
   \<and> (\<forall>content. files f (path_join P dir STATE_FILE) = Some content \<and> json_parse P content = Throws
         \<longrightarrow> fst (getWorkflowState P f dir) = Inr JNull)"
proof (intro conjI allI impI)
  fix e show "fst (getWorkflowState P f dir) \<noteq> Inl e"
    using getWorkflowState_never_throws[of P f dir] by auto
next
  assume "files f (path_join P dir STATE_FILE) = None"
  then show "fst (getWorkflowState P f dir) = Inr JNull"
    by (simp add: getWorkflowState_missing)
next
  fix content
  assume a: "files f (path_join P dir STATE_FILE) = Some content \<and> json_parse P content = Throws"
  show "fst (getWorkflowState P f dir) = Inr JNull"
  proof (cases "readable f (path_join P dir STATE_FILE)")
    case True
    with a show ?thesis by (simp add: getWorkflowState_stored)
  next
    case False
    with a show ?thesis by (simp add: getWorkflowState_unreadable)
  qed
qed

lemma state_path_eq: "path_join P0 d STATE_FILE = state_path d"
  by (simp add: state_path_def)

lemma P0_parse: "json_parse P0 (Some v) = Value v" "json_parse P0 None = Throws"
  "json_stringify P0 v = Some v"
  by (simp_all add: P0_def)

lemma fs_state_simps:
  "files (fs_state p c) p = Some c" "readable (fs_state p c) q" "writable (fs_state p c) q"
  by (simp_all add: fs_state_def)

theorem getWorkflowState_absent_witness:
  "fst (getWorkflowState P0 fs_empty dir_a) = Inr JNull
   \<and> fst (getWorkflowState P0 (fs_state (state_path dir_a) None) dir_a) = Inr JNull"
proof -
  have 1: "files fs_empty (path_join P0 dir_a STATE_FILE) = None" by (simp add: fs_empty_def)
  have 2: "files (fs_state (state_path dir_a) None) (path_join P0 dir_a STATE_FILE) = Some None
     \<and> json_parse P0 None = Throws"
    by (simp add: state_path_eq fs_state_simps P0_parse)
  from getWorkflowState_absent[of P0 fs_empty dir_a, THEN conjunct2, THEN conjunct1, rule_format, OF 1]
       getWorkflowState_absent[of P0 "fs_state (state_path dir_a) None" dir_a,
          THEN conjunct2, THEN conjunct2, rule_format, OF 2]
  show ?thesis by simp
qed

section \<open>\<open>updateWorkflowState\<close>\<close>

text \<open>The two assignments on a state that is an object with an object under \<open>stepStatus\<close>.\<close>

lemma assign_step_object:
  assumes "lookup ps (str ''stepStatus'') = JObj ss"
  shows "assign_step (JObj ps) step d =
     Inr (JObj ((str ''stepStatus'',
                 JObj ((step_name step,
                        JObj ((str ''completed'', JBool True) # own_props d
                              @ own_props (lookup ss (step_name step)))) # ss))
               # (str ''currentStep'', JStr (step_name step)) # ps))"
proof -
  have "lookup ((str ''currentStep'', JStr (step_name step)) # ps) (str ''stepStatus'') = JObj ss"
    using assms by (simp add: lookup_def key_neq)
  then show ?thesis by (simp add: assign_step_def)
qed

text \<open>The two assignments on a state without \<open>stepStatus\<close>, as the stored \<open>{}\<close> is.\<close>

lemma assign_step_no_status:
  assumes "lookup ps (str ''stepStatus'') = JUndefined"
  shows "assign_step (JObj ps) step d = Inl TypeError"
proof -
  have "lookup ((str ''currentStep'', JStr (step_name step)) # ps) (str ''stepStatus'') = JUndefined"
    using assms by (simp add: lookup_def key_neq)
  then show ?thesis by (simp add: assign_step_def)
qed

lemma assign_step_primitive:
  "assign_step (JNum n) step d = Inl TypeError" "assign_step (JStr s) step d = Inl TypeError"
  "assign_step (JBool b) step d = Inl TypeError"
  by (simp_all add: assign_step_def)

lemma assign_step_array: "assign_step (JArr xs []) step d = Inl TypeError"
  by (simp add: assign_step_def lookup_def key_neq)

lemma setWorkflowState_object:
  assumes "lookup ps (str ''featureDir'') = JStr d"
  shows "setWorkflowState P f (JObj ps) =
     writeFile f (path_join P d STATE_FILE) (json_stringify P (JObj ps))"
  using assms by (simp add: setWorkflowState_def)

text \<open>
  An update of a directory whose state file holds an object with a string under
  \<open>featureDir\<close> and an object under \<open>stepStatus\<close>: the state returned has the step and the
  merged payload, and it is written to the state file of the directory that \<open>featureDir\<close>
  names, whichever directory was updated.
\<close>

lemma updateWorkflowState_stored:
  assumes "files f (path_join P dir STATE_FILE) = Some content"
    "readable f (path_join P dir STATE_FILE)"
    "json_parse P content = Value (JObj ps)"
    "lookup ps (str ''featureDir'') = JStr named" "lookup ps (str ''stepStatus'') = JObj ss"
    "writable f (path_join P named STATE_FILE)"
    and s: "s = JObj ((str ''stepStatus'',
                 JObj ((step_name step,
                        JObj ((str ''completed'', JBool True) # own_props d
                              @ own_props (lookup ss (step_name step)))) # ss))
               # (str ''currentStep'', JStr (step_name step)) # ps)"
  shows "updateWorkflowState P now f dir step d =
     (Inr s, f\<lparr>trace := trace f @ [OpAccess (path_join P dir STATE_FILE),
                    OpRead (path_join P dir STATE_FILE), OpWrite (path_join P named STATE_FILE)],
                files := (files f)(path_join P named STATE_FILE \<mapsto> json_stringify P s)\<rparr>)"
proof -
  have g: "getWorkflowState P f dir = (Inr (JObj ps),
      f\<lparr>trace := trace f @ [OpAccess (path_join P dir STATE_FILE), OpRead (path_join P dir STATE_FILE)]\<rparr>)"
    using getWorkflowState_stored[OF assms(1,2)] assms(3) by simp
  have a: "assign_step (JObj ps) step d = Inr s"
    unfolding s by (rule assign_step_object[OF assms(5)])
  have fd: "lookup ((str ''stepStatus'',
                 JObj ((step_name step,
                        JObj ((str ''completed'', JBool True) # own_props d
                              @ own_props (lookup ss (step_name step)))) # ss))
               # (str ''currentStep'', JStr (step_name step)) # ps) (str ''featureDir'') = JStr named"
    using assms(4) by (simp add: lookup_def key_neq)
  have w: "setWorkflowState P f' s = writeFile f' (path_join P named STATE_FILE) (json_stringify P s)" for f'
    unfolding s by (rule setWorkflowState_object[OF fd])
  show ?thesis
    using assms(6) by (simp add: updateWorkflowState_def g a w writeFile_def Let_def)
qed

text \<open>An update of a directory whose state file holds an object without \<open>stepStatus\<close> throws
  a \<open>TypeError\<close>, and nothing is written.\<close>

lemma updateWorkflowState_not_a_state:
  assumes "files f (path_join P dir STATE_FILE) = Some content"
    "readable f (path_join P dir STATE_FILE)"
    "json_parse P content = Value (JObj ps)" "lookup ps (str ''stepStatus'') = JUndefined"
  shows "updateWorkflowState P now f dir step d =
     (Inl TypeError, f\<lparr>trace := trace f @ [OpAccess (path_join P dir STATE_FILE),
                                             OpRead (path_join P dir STATE_FILE)]\<rparr>)"
proof -
  have g: "getWorkflowState P f dir = (Inr (JObj ps),
      f\<lparr>trace := trace f @ [OpAccess (path_join P dir STATE_FILE), OpRead (path_join P dir STATE_FILE)]\<rparr>)"
    using getWorkflowState_stored[OF assms(1,2)] assms(3) by simp
  show ?thesis
    by (simp add: updateWorkflowState_def g assign_step_no_status[OF assms(4)])
qed

text \<open>An update of a directory without a state file: the fresh state is written, then the
  updated one, both to the state file of the directory.\<close>

lemma updateWorkflowState_fresh:
  assumes "files f (path_join P dir STATE_FILE) = None" "writable f (path_join P dir STATE_FILE)"
    and s: "s = JObj ((str ''stepStatus'',
                 JObj [(step_name step, JObj ((str ''completed'', JBool True) # own_props d))])
               # (str ''currentStep'', JStr (step_name step))
               # [(str ''featureDir'', JStr dir),
                  (str ''currentStep'', JStr (str ''specify'')),
                  (str ''stepStatus'', JObj []),
                  (str ''metadata'', JObj [(str ''startedAt'', JStr now),
                                           (str ''featureDescription'', JStr [])])])"
  shows "updateWorkflowState P now f dir step d =
     (Inr s, f\<lparr>trace := trace f @ [OpAccess (path_join P dir STATE_FILE),
                    OpWrite (path_join P dir STATE_FILE), OpWrite (path_join P dir STATE_FILE)],
                files := (files f)(path_join P dir STATE_FILE \<mapsto> json_stringify P s)\<rparr>)"
proof -
  let ?ps = "[(str ''featureDir'', JStr dir),
                  (str ''currentStep'', JStr (str ''specify'')),
                  (str ''stepStatus'', JObj []),
                  (str ''metadata'', JObj [(str ''startedAt'', JStr now),
                                           (str ''featureDescription'', JStr [])])]"
  have l: "lookup ?ps (str ''featureDir'') = JStr dir" "lookup ?ps (str ''stepStatus'') = JObj []"
    by (simp_all add: lookup_def str_inj)
  have a: "assign_step (JObj ?ps) step d = Inr s"
    unfolding s using assign_step_object[OF l(2), of step d] by (simp add: lookup_def)
  have fd: "lookup ((str ''stepStatus'',
                 JObj [(step_name step, JObj ((str ''completed'', JBool True) # own_props d))])
               # (str ''currentStep'', JStr (step_name step)) # ?ps) (str ''featureDir'') = JStr dir"
    by (simp add: lookup_def str_inj)
  have w: "setWorkflowState P f' s = writeFile f' (path_join P dir STATE_FILE) (json_stringify P s)" for f'
    unfolding s by (rule setWorkflowState_object[OF fd])
  have w0: "setWorkflowState P f' (JObj ?ps) = writeFile f' (path_join P dir STATE_FILE) (json_stringify P (JObj ?ps))" for f'
    by (rule setWorkflowState_object[OF l(1)])
  show ?thesis
    using assms(2)
    by (simp add: updateWorkflowState_def getWorkflowState_missing[OF assms(1)] initWorkflowState_def
          w0 a w writeFile_def Let_def)
qed

lemma state_path_inj: "state_path d = state_path d' \<longleftrightarrow> d = d'"
  by (simp add: state_path_def P0_def)

lemma dir_a_b: "dir_a \<noteq> dir_b"
  by (simp add: dir_a_def dir_b_def str_inj)

lemma state0_lookup:
  "lookup [(str ''featureDir'', JStr d),
           (str ''currentStep'', JStr (str ''specify'')),
           (str ''stepStatus'', JObj []),
           (str ''metadata'', JObj [(str ''startedAt'', JStr (str ''2026-01-01T00:00:00.000Z'')),
                                    (str ''featureDescription'', JStr [])])] (str ''featureDir'') = JStr d"
  "lookup [(str ''featureDir'', JStr d),
           (str ''currentStep'', JStr (str ''specify'')),
           (str ''stepStatus'', JObj []),
           (str ''metadata'', JObj [(str ''startedAt'', JStr (str ''2026-01-01T00:00:00.000Z'')),
                                    (str ''featureDescription'', JStr [])])] (str ''stepStatus'') = JObj []"
  by (simp_all add: lookup_def str_inj)

text \<open>An update of \<open>specs/b\<close> while its state file holds a state that names \<open>specs/a\<close>.\<close>

lemma update_foreign:
  assumes "files f (state_path dir_b) = Some (Some (state0 dir_a))"
    "readable f (state_path dir_b)" "writable f (state_path dir_a)"
  shows "\<exists>s f'. updateWorkflowState P0 now f dir_b step d = (Inr s, f')
     \<and> get_prop s (str ''currentStep'') = Inr (JStr (step_name step))
     \<and> get_prop s (str ''stepStatus'') =
         Inr (JObj [(step_name step, JObj ((str ''completed'', JBool True) # own_props d))])
     \<and> files f' (state_path dir_b) = Some (Some (state0 dir_a))
     \<and> files f' (state_path dir_a) = Some (json_stringify P0 s)
     \<and> readable f' = readable f \<and> writable f' = writable f"
proof -
  let ?ps = "[(str ''featureDir'', JStr dir_a),
           (str ''currentStep'', JStr (str ''specify'')),
           (str ''stepStatus'', JObj []),
           (str ''metadata'', JObj [(str ''startedAt'', JStr (str ''2026-01-01T00:00:00.000Z'')),
                                    (str ''featureDescription'', JStr [])])]"
  let ?s = "JObj ((str ''stepStatus'',
                 JObj ((step_name step,
                        JObj ((str ''completed'', JBool True) # own_props d
                              @ own_props (lookup [] (step_name step)))) # []))
               # (str ''currentStep'', JStr (step_name step)) # ?ps)"
  have p: "json_parse P0 (Some (state0 dir_a)) = Value (JObj ?ps)"
    by (simp add: P0_parse state0_def)
  note u = updateWorkflowState_stored[of f P0 dir_b "Some (state0 dir_a)" ?ps dir_a "[]" ?s step d now,
      unfolded state_path_eq, OF assms(1,2) p state0_lookup assms(3) refl]
  have ne: "state_path dir_a \<noteq> state_path dir_b" by (simp add: state_path_inj dir_a_b)
  have 1: "get_prop ?s (str ''currentStep'') = Inr (JStr (step_name step))"
    by (simp add: lookup_def key_neq)
  have 2: "get_prop ?s (str ''stepStatus'') =
         Inr (JObj [(step_name step, JObj ((str ''completed'', JBool True) # own_props d))])"
    by (simp add: lookup_def)
  show ?thesis
    apply (rule exI[of _ ?s])
    apply (rule exI)
    apply (intro conjI)
          apply (rule u)
         apply (rule 1)
        apply (rule 2)
    using assms(1) ne apply simp
      apply simp
     apply simp
    apply simp
    done
qed

lemma fs_state_b:
  "files (fs_state (state_path dir_b) (Some (state0 dir_a))) (state_path dir_b) = Some (Some (state0 dir_a))"
  "readable (fs_state (state_path dir_b) (Some (state0 dir_a))) p"
  "writable (fs_state (state_path dir_b) (Some (state0 dir_a))) p"
  by (simp_all add: fs_state_def)

text \<open>
  C6 fails on the code. The state file of \<open>specs/b\<close> holds a state whose \<open>featureDir\<close> is
  \<open>specs/a\<close> (a feature directory that was copied or renamed). \<open>updateWorkflowState\<close> of
  \<open>specs/b\<close> with \<^verbatim>\<open>{planPath: "/a"}\<close> writes the merged state to the state file of
  \<open>specs/a\<close> and leaves that of \<open>specs/b\<close> as it was; the second update, with
  \<^verbatim>\<open>{artifacts: ["/b"]}\<close>, reads the old state again, and the payload of \<open>plan\<close> it
  returns has \<open>completed\<close> and \<open>artifacts\<close> and no \<open>planPath\<close>. \<open>getWorkflowState\<close> reads, and
  \<open>initWorkflowState\<close> in the other branch of the same update writes, the state file of the
  directory that was passed.
\<close>

theorem updateWorkflowState_foreign_state_loses_keys:
  "\<exists>s1 f1 s2 f2 status.
       updateWorkflowState P0 (str ''t1'') (fs_state (state_path dir_b) (Some (state0 dir_a)))
          dir_b Plan plan_path = (Inr s1, f1)
     \<and> files f1 (state_path dir_b) = Some (Some (state0 dir_a))
     \<and> files f1 (state_path dir_a) = Some (json_stringify P0 s1)
     \<and> updateWorkflowState P0 (str ''t2'') f1 dir_b Plan artifacts = (Inr s2, f2)
     \<and> get_prop s2 (str ''stepStatus'') = Inr status
     \<and> get_prop status (str ''plan'') =
         Inr (JObj [(str ''completed'', JBool True), (str ''artifacts'', JArr [JStr (str ''/b'')] [])])
     \<and> get_prop (JObj [(str ''completed'', JBool True), (str ''artifacts'', JArr [JStr (str ''/b'')] [])])
          (str ''planPath'') = Inr JUndefined"
proof -
  let ?f = "fs_state (state_path dir_b) (Some (state0 dir_a))"
  from update_foreign[OF fs_state_b, of "str ''t1''" Plan plan_path] obtain s1 f1 where
    u1: "updateWorkflowState P0 (str ''t1'') ?f dir_b Plan plan_path = (Inr s1, f1)"
    and b1: "files f1 (state_path dir_b) = Some (Some (state0 dir_a))"
    and a1: "files f1 (state_path dir_a) = Some (json_stringify P0 s1)"
    and r1: "readable f1 = readable ?f" and w1: "writable f1 = writable ?f"
    by (elim exE conjE)
  have rb: "readable f1 (state_path dir_b)" unfolding r1 by (rule fs_state_b)
  have wa: "writable f1 (state_path dir_a)" unfolding w1 by (rule fs_state_b)
  from update_foreign[OF b1 rb wa, of "str ''t2''" Plan artifacts] obtain s2 f2 where
    u2: "updateWorkflowState P0 (str ''t2'') f1 dir_b Plan artifacts = (Inr s2, f2)"
    and st: "get_prop s2 (str ''stepStatus'') =
         Inr (JObj [(step_name Plan, JObj ((str ''completed'', JBool True) # own_props artifacts))])"
    by (elim exE conjE)
  let ?status = "JObj [(step_name Plan, JObj ((str ''completed'', JBool True) # own_props artifacts))]"
  have p: "get_prop ?status (str ''plan'') =
         Inr (JObj [(str ''completed'', JBool True), (str ''artifacts'', JArr [JStr (str ''/b'')] [])])"
    by (simp add: lookup_def artifacts_def)
  have n: "get_prop (JObj [(str ''completed'', JBool True), (str ''artifacts'', JArr [JStr (str ''/b'')] [])])
          (str ''planPath'') = Inr JUndefined"
    by (simp add: lookup_def str_inj)
  from u1 b1 a1 u2 st p n show ?thesis by (intro exI conjI)
qed

text \<open>
  C9 fails on the code, by the same defect. With the state file of \<open>specs/b\<close> holding a
  state whose \<open>featureDir\<close> is \<open>specs/a\<close> and whose step is \<open>specify\<close>, \<open>updateWorkflowState\<close>
  of \<open>specs/b\<close> with the step \<open>implement\<close> returns an object with that step, but writes it to
  the state file of \<open>specs/a\<close>: the state of \<open>specs/b\<close>, read back, is the old one, and its
  \<open>currentStep\<close> is still \<open>specify\<close>.
\<close>

theorem updateWorkflowState_foreign_state_keeps_step:
  "\<exists>s1 f1 f2.
       updateWorkflowState P0 (str ''t1'') (fs_state (state_path dir_b) (Some (state0 dir_a)))
          dir_b Implement (JObj []) = (Inr s1, f1)
     \<and> get_prop s1 (str ''currentStep'') = Inr (JStr (str ''implement''))
     \<and> getWorkflowState P0 f1 dir_b = (Inr (state0 dir_a), f2)
     \<and> get_prop (state0 dir_a) (str ''currentStep'') = Inr (JStr (str ''specify''))"
proof -
  let ?f = "fs_state (state_path dir_b) (Some (state0 dir_a))"
  from update_foreign[OF fs_state_b, of "str ''t1''" Implement "JObj []"] obtain s1 f1 where
    u1: "updateWorkflowState P0 (str ''t1'') ?f dir_b Implement (JObj []) = (Inr s1, f1)"
    and c1: "get_prop s1 (str ''currentStep'') = Inr (JStr (step_name Implement))"
    and b1: "files f1 (state_path dir_b) = Some (Some (state0 dir_a))"
    and r1: "readable f1 = readable ?f"
    by (elim exE conjE)
  have rb: "readable f1 (state_path dir_b)" unfolding r1 by (rule fs_state_b)
  have c: "get_prop s1 (str ''currentStep'') = Inr (JStr (str ''implement''))" using c1 by simp
  have g: "getWorkflowState P0 f1 dir_b = (Inr (state0 dir_a),
      f1\<lparr>trace := trace f1 @ [OpAccess (state_path dir_b), OpRead (state_path dir_b)]\<rparr>)"
    using getWorkflowState_stored[of f1 P0 dir_b, unfolded state_path_eq, OF b1 rb]
    by (simp add: P0_parse)
  have o: "get_prop (state0 dir_a) (str ''currentStep'') = Inr (JStr (str ''specify''))"
    by (simp add: state0_def lookup_def str_inj)
  from u1 c g o show ?thesis by (intro exI conjI)
qed

text \<open>With the state file of \<open>specs/a\<close> holding a state that names \<open>specs/a\<close>, the two updates
  of the example merge: the payload of \<open>plan\<close> has \<open>planPath\<close>, \<open>artifacts\<close> and \<open>completed\<close>.\<close>

lemma updateWorkflowState_own_state_merges:
  "\<exists>s1 f1 s2 f2 status payload.
       updateWorkflowState P0 (str ''t1'') (fs_state (state_path dir_a) (Some (state0 dir_a)))
          dir_a Plan plan_path = (Inr s1, f1)
     \<and> updateWorkflowState P0 (str ''t2'') f1 dir_a Plan artifacts = (Inr s2, f2)
     \<and> get_prop s2 (str ''stepStatus'') = Inr status
     \<and> get_prop status (str ''plan'') = Inr payload
     \<and> get_prop payload (str ''planPath'') = Inr (JStr (str ''/a''))
     \<and> get_prop payload (str ''artifacts'') = Inr (JArr [JStr (str ''/b'')] [])
     \<and> get_prop payload (str ''completed'') = Inr (JBool True)"
proof -
  let ?f = "fs_state (state_path dir_a) (Some (state0 dir_a))"
  let ?ps = "[(str ''featureDir'', JStr dir_a),
           (str ''currentStep'', JStr (str ''specify'')),
           (str ''stepStatus'', JObj []),
           (str ''metadata'', JObj [(str ''startedAt'', JStr (str ''2026-01-01T00:00:00.000Z'')),
                                    (str ''featureDescription'', JStr [])])]"
  let ?p1 = "JObj ((str ''completed'', JBool True) # own_props plan_path @ own_props (lookup [] (step_name Plan)))"
  let ?ps1 = "(str ''stepStatus'', JObj [(step_name Plan, ?p1)])
               # (str ''currentStep'', JStr (step_name Plan)) # ?ps"
  let ?s1 = "JObj ?ps1"
  let ?f1 = "?f\<lparr>trace := trace ?f @ [OpAccess (state_path dir_a), OpRead (state_path dir_a),
                   OpWrite (state_path dir_a)],
                files := (files ?f)(state_path dir_a \<mapsto> json_stringify P0 ?s1)\<rparr>"
  let ?p2 = "JObj ((str ''completed'', JBool True) # own_props artifacts
                @ own_props (lookup [(step_name Plan, ?p1)] (step_name Plan)))"
  let ?s2 = "JObj ((str ''stepStatus'', JObj ((step_name Plan, ?p2) # [(step_name Plan, ?p1)]))
               # (str ''currentStep'', JStr (step_name Plan)) # ?ps1)"
  have p: "json_parse P0 (Some (state0 dir_a)) = Value (JObj ?ps)"
    by (simp add: P0_parse state0_def)
  have io: "files ?f (state_path dir_a) = Some (Some (state0 dir_a))" "readable ?f (state_path dir_a)"
    "writable ?f (state_path dir_a)" by (simp_all add: fs_state_def)
  have u1: "updateWorkflowState P0 (str ''t1'') ?f dir_a Plan plan_path = (Inr ?s1, ?f1)"
    by (rule updateWorkflowState_stored[of ?f P0 dir_a "Some (state0 dir_a)" ?ps dir_a "[]" ?s1 Plan plan_path,
      unfolded state_path_eq, OF io(1,2) p state0_lookup io(3) refl])
  have io1: "files ?f1 (state_path dir_a) = Some (Some ?s1)" "readable ?f1 (state_path dir_a)"
    "writable ?f1 (state_path dir_a)" by (simp_all add: fs_state_def P0_parse)
  have p1: "json_parse P0 (Some ?s1) = Value (JObj ?ps1)" by (simp add: P0_parse)
  have l1: "lookup ?ps1 (str ''featureDir'') = JStr dir_a"
    "lookup ?ps1 (str ''stepStatus'') = JObj [(step_name Plan, ?p1)]"
    by (simp_all add: lookup_def str_inj)
  from updateWorkflowState_stored[of ?f1 P0 dir_a "Some ?s1" ?ps1 dir_a "[(step_name Plan, ?p1)]" ?s2 Plan artifacts "str ''t2''",
      unfolded state_path_eq, OF io1(1,2) p1 l1 io1(3) refl]
  obtain f2 where u2: "updateWorkflowState P0 (str ''t2'') ?f1 dir_a Plan artifacts = (Inr ?s2, f2)"
    by blast
  have a: "get_prop ?s2 (str ''stepStatus'') = Inr (JObj ((step_name Plan, ?p2) # [(step_name Plan, ?p1)]))"
    by (simp add: lookup_def)
  have b: "get_prop (JObj ((step_name Plan, ?p2) # [(step_name Plan, ?p1)])) (str ''plan'') = Inr ?p2"
    by (simp add: lookup_def)
  have c: "get_prop ?p2 (str ''planPath'') = Inr (JStr (str ''/a''))"
    "get_prop ?p2 (str ''artifacts'') = Inr (JArr [JStr (str ''/b'')] [])"
    "get_prop ?p2 (str ''completed'') = Inr (JBool True)"
    by (simp_all add: lookup_def str_inj plan_path_def artifacts_def)
  from u1 u2 a b c show ?thesis by (intro exI conjI)
qed

text \<open>With the state file of \<open>specs/a\<close> holding \<^verbatim>\<open>{}\<close>, which is JSON and not a state, the update
  throws a \<open>TypeError\<close> at \<open>state.stepStatus[step]\<close> and writes nothing.\<close>

lemma updateWorkflowState_empty_object:
  "updateWorkflowState P0 (str ''t1'') (fs_state (state_path dir_a) (Some (JObj []))) dir_a Plan plan_path =
     (Inl TypeError,
      (fs_state (state_path dir_a) (Some (JObj [])))
        \<lparr>trace := [OpAccess (state_path dir_a), OpRead (state_path dir_a)]\<rparr>)"
proof -
  let ?f = "fs_state (state_path dir_a) (Some (JObj []))"
  have io: "files ?f (state_path dir_a) = Some (Some (JObj []))" "readable ?f (state_path dir_a)"
    by (simp_all add: fs_state_def)
  have p: "json_parse P0 (Some (JObj [])) = Value (JObj [])" by (simp add: P0_parse)
  have l: "lookup [] (str ''stepStatus'') = JUndefined" by (simp add: lookup_def)
  from updateWorkflowState_not_a_state[of ?f P0 dir_a "Some (JObj [])" "[]" "str ''t1''" Plan plan_path,
      unfolded state_path_eq, OF io p l]
  show ?thesis by (simp add: fs_state_def)
qed

end
